theory Spec2Isabelle
  imports Complex_Main "HOL-Library.Char_ord" "HOL-Library.List_Lexorder"
begin

section \<open>Data model\<close>

text \<open>
  The program is \<^verbatim>\<open>preprocess_survey_data(df)\<close> of
  \<^verbatim>\<open>preprocessing/automate_kenny.py\<close>, a function on a pandas DataFrame.

  A cell of the table is a number, an infinity, a text, or the missing marker (NaN).
  Numbers are rationals: the finite floats and integers of the data. The only arithmetic
  the program does is the mean of the two middle values of a median, which the model
  takes exactly (float64 rounds it). Booleans in the data are outside the model.

  A column is the list of its cells; a table is the list of its named columns, in
  order. A DataFrame has columns of one length and the program addresses columns by
  name: the model's tables are meant with \<open>rectangular\<close> columns and names that are
  \<open>distinct\<close> after the header normalisation (\<open>wf_table\<close>), and the theorems
  that depend on it say so.

  The dtype of a column is read off its cells, as \<^verbatim>\<open>read_csv\<close> infers it:
  \<^verbatim>\<open>object\<close> when a cell is text, \<^verbatim>\<open>int64\<close> or \<^verbatim>\<open>float64\<close> otherwise.

  In-place \<^verbatim>\<open>df[col].fillna(v, inplace=True)\<close> is modelled as the program relies on
  it: the fill reaches the table (pandas without copy-on-write).

  Every exception the program can raise is a value: the function returns
  \<open>Inl\<close> of the error or \<open>Inr\<close> of the table. Names and texts are ASCII strings.
\<close>

datatype cell = Num rat | PInf | NInf | Str string | NaN

type_synonym column = "cell list"

type_synonym table = "(string \<times> column) list"

datatype error = KeyError | TypeError | ValueError

definition ebind :: "error + 'a \<Rightarrow> ('a \<Rightarrow> error + 'b) \<Rightarrow> error + 'b" where
  "ebind m f = (case m of Inl e \<Rightarrow> Inl e | Inr x \<Rightarrow> f x)"

text \<open>A \<^verbatim>\<open>for\<close> loop whose body may raise: the first error ends it.\<close>

fun for_each :: "('a \<Rightarrow> 's \<Rightarrow> error + 's) \<Rightarrow> 'a list \<Rightarrow> 's \<Rightarrow> error + 's" where
  "for_each f [] s = Inr s"
| "for_each f (x # xs) s = (case f x s of Inl e \<Rightarrow> Inl e | Inr s' \<Rightarrow> for_each f xs s')"

subsection \<open>Columns of a table\<close>

definition columns :: "table \<Rightarrow> string list" where
  "columns df = map fst df"

text \<open>\<^verbatim>\<open>df[col]\<close>, read and assigned, for a column the table has.\<close>

definition get_col :: "table \<Rightarrow> string \<Rightarrow> column" where
  "get_col df col = (case map_of df col of Some cs \<Rightarrow> cs | None \<Rightarrow> [])"

definition set_col :: "table \<Rightarrow> string \<Rightarrow> column \<Rightarrow> table" where
  "set_col df col cs = map (\<lambda>(n, old). (n, if n = col then cs else old)) df"

definition nrows :: "table \<Rightarrow> nat" where
  "nrows df = (case df of [] \<Rightarrow> 0 | (n, cs) # _ \<Rightarrow> length cs)"

definition rectangular :: "table \<Rightarrow> bool" where
  "rectangular df = list_all (\<lambda>(n, cs). length cs = nrows df) df"

definition row :: "table \<Rightarrow> nat \<Rightarrow> cell list" where
  "row df i = map (\<lambda>(n, cs). cs ! i) df"

definition rows :: "table \<Rightarrow> cell list list" where
  "rows df = map (row df) [0..<nrows df]"

section \<open>The pandas operations the program calls\<close>

subsection \<open>Header normalisation\<close>

text \<open>\<^verbatim>\<open>str.strip()\<close> removes the ASCII whitespace characters at both ends.\<close>

definition is_space :: "char \<Rightarrow> bool" where
  "is_space c = (of_char c \<in> {9, 10, 11, 12, 13, 28, 29, 30, 31, 32 :: nat})"

definition strip :: "string \<Rightarrow> string" where
  "strip s = rev (dropWhile is_space (rev (dropWhile is_space s)))"

definition replace_spaces :: "string \<Rightarrow> string" where
  "replace_spaces s = map (\<lambda>c. if c = CHR '' '' then CHR ''_'' else c) s"

subsection \<open>Missing values, dtype, numeric coercion\<close>

definition isnull :: "cell \<Rightarrow> bool" where
  "isnull c = (c = NaN)"

definition is_text :: "cell \<Rightarrow> bool" where
  "is_text c = (case c of Str s \<Rightarrow> True | _ \<Rightarrow> False)"

text \<open>\<^verbatim>\<open>dtype in ['int64', 'float64']\<close>\<close>

definition numeric_dtype :: "column \<Rightarrow> bool" where
  "numeric_dtype cs = (\<not> list_ex is_text cs)"

definition fillna :: "cell \<Rightarrow> column \<Rightarrow> column" where
  "fillna v cs = map (\<lambda>c. if isnull c then v else c) cs"

text \<open>
  \<^verbatim>\<open>pd.to_numeric(s, errors='coerce')\<close>: numbers and infinities stay, a text becomes
  what it spells, a number or an infinity (\<^verbatim>\<open>'inf'\<close>, \<^verbatim>\<open>'1e999'\<close>), or NaN. What a text
  spells is pandas' parser, a parameter \<open>parse\<close> of the model.
\<close>

datatype number = Finite rat | Plus_Inf | Minus_Inf

fun cell_of :: "number \<Rightarrow> cell" where
  "cell_of (Finite x) = Num x"
| "cell_of Plus_Inf = PInf"
| "cell_of Minus_Inf = NInf"

definition to_numeric_cell :: "(string \<Rightarrow> number option) \<Rightarrow> cell \<Rightarrow> cell" where
  "to_numeric_cell parse c =
     (case c of
        Str s \<Rightarrow> (case parse s of Some v \<Rightarrow> cell_of v | None \<Rightarrow> NaN)
      | _ \<Rightarrow> c)"

definition to_numeric_coerce :: "(string \<Rightarrow> number option) \<Rightarrow> column \<Rightarrow> column" where
  "to_numeric_coerce parse cs = map (to_numeric_cell parse) cs"

text \<open>\<^verbatim>\<open>pd.to_numeric(s)\<close>, errors raised: a text that spells no number is a ValueError.\<close>

definition to_numeric :: "(string \<Rightarrow> number option) \<Rightarrow> column \<Rightarrow> error + column" where
  "to_numeric parse cs =
     (if list_ex (\<lambda>c. is_text c \<and> to_numeric_cell parse c = NaN) cs then Inl ValueError
      else Inr (map (to_numeric_cell parse) cs))"

text \<open>A parser for the examples: unsigned decimal integers.\<close>

definition digit_of :: "char \<Rightarrow> nat option" where
  "digit_of c = (let k = of_char c :: nat in if 48 \<le> k \<and> k \<le> 57 then Some (k - 48) else None)"

fun digits_value :: "nat \<Rightarrow> string \<Rightarrow> nat option" where
  "digits_value acc [] = Some acc"
| "digits_value acc (c # cs) =
     (case digit_of c of None \<Rightarrow> None | Some d \<Rightarrow> digits_value (10 * acc + d) cs)"

definition parse_digits :: "string \<Rightarrow> number option" where
  "parse_digits s =
     (if s = [] then None else map_option (\<lambda>n. Finite (of_nat n)) (digits_value 0 s))"

subsection \<open>Median and mode\<close>

fun numbers :: "column \<Rightarrow> rat list" where
  "numbers [] = []"
| "numbers (Num x # cs) = x # numbers cs"
| "numbers (c # cs) = numbers cs"

fun texts :: "column \<Rightarrow> string list" where
  "texts [] = []"
| "texts (Str s # cs) = s # texts cs"
| "texts (c # cs) = texts cs"

text \<open>
  The values of a numeric column in ascending order, the infinities at the two ends; NaN
  is left out.
\<close>

definition sort_values :: "column \<Rightarrow> column" where
  "sort_values cs =
     filter (\<lambda>c. c = NInf) cs @ map Num (sort (numbers cs)) @ filter (\<lambda>c. c = PInf) cs"

text \<open>
  The mean of two values, as floats have it: an infinity wins over a number, and the
  mean of the two opposite infinities is NaN.
\<close>

definition mean2 :: "cell \<Rightarrow> cell \<Rightarrow> cell" where
  "mean2 a b =
     (case a of
        Num x \<Rightarrow> (case b of Num y \<Rightarrow> Num ((x + y) / 2) | PInf \<Rightarrow> PInf | NInf \<Rightarrow> NInf | _ \<Rightarrow> NaN)
      | PInf \<Rightarrow> (case b of Num y \<Rightarrow> PInf | PInf \<Rightarrow> PInf | _ \<Rightarrow> NaN)
      | NInf \<Rightarrow> (case b of Num y \<Rightarrow> NInf | NInf \<Rightarrow> NInf | _ \<Rightarrow> NaN)
      | _ \<Rightarrow> NaN)"

definition median_of :: "column \<Rightarrow> cell" where
  "median_of cs =
     (let s = sort_values cs; n = length s in
      if n = 0 then NaN
      else if odd n then s ! (n div 2)
      else mean2 (s ! (n div 2 - 1)) (s ! (n div 2)))"

text \<open>
  \<^verbatim>\<open>Series.median()\<close> skips NaN, is NaN when nothing is left, and raises a
  TypeError on an object column.
\<close>

definition median :: "column \<Rightarrow> error + cell" where
  "median cs = (if list_ex is_text cs then Inl TypeError else Inr (median_of cs))"

text \<open>
  \<^verbatim>\<open>Series.mode()\<close>: the non-missing values of highest count, in order of first
  appearance, then sorted when they can be compared (all numbers, or all texts).
  \<^verbatim>\<open>mode()[0]\<close> is a KeyError when the column holds no value.
\<close>

definition first_seen :: "'a list \<Rightarrow> 'a list" where
  "first_seen xs = rev (remdups (rev xs))"

definition modes :: "column \<Rightarrow> column" where
  "modes cs =
     (let vs = filter (\<lambda>c. \<not> isnull c) cs;
          m = fold max (map (count_list vs) vs) 0
      in filter (\<lambda>v. count_list vs v = m) (first_seen vs))"

definition sort_modes :: "column \<Rightarrow> column" where
  "sort_modes ms =
     (if list_all (\<lambda>c. \<not> is_text c) ms then sort_values ms
      else if list_all is_text ms then map Str (sort (texts ms))
      else ms)"

definition mode0 :: "column \<Rightarrow> error + cell" where
  "mode0 cs = (case sort_modes (modes cs) of [] \<Rightarrow> Inl KeyError | v # _ \<Rightarrow> Inr v)"

subsection \<open>Casts, clipping, range test\<close>

definition trunc :: "rat \<Rightarrow> int" where
  "trunc x = (if 0 \<le> x then \<lfloor>x\<rfloor> else \<lceil>x\<rceil>)"

text \<open>
  \<^verbatim>\<open>astype(int)\<close> on numbers truncates towards zero into int64; a value beyond int64
  becomes the least int64 (the x86-64 conversion). NaN or an infinity in the column is a
  ValueError. The program casts only after a numeric coercion, so that no text reaches a
  cast; the model treats a text there like NaN.
\<close>

definition is_number :: "cell \<Rightarrow> bool" where
  "is_number c = (case c of Num x \<Rightarrow> True | _ \<Rightarrow> False)"

definition int64_of :: "rat \<Rightarrow> int" where
  "int64_of x = (let t = trunc x in if - (2 ^ 63) \<le> t \<and> t < 2 ^ 63 then t else - (2 ^ 63))"

definition astype_int :: "column \<Rightarrow> error + column" where
  "astype_int cs =
     (if list_all is_number cs
      then Inr (map (\<lambda>c. case c of Num x \<Rightarrow> Num (of_int (int64_of x)) | _ \<Rightarrow> c) cs)
      else Inl ValueError)"

definition clip_cell :: "rat \<Rightarrow> rat \<Rightarrow> cell \<Rightarrow> cell" where
  "clip_cell lo hi c =
     (case c of Num x \<Rightarrow> Num (max lo (min hi x)) | PInf \<Rightarrow> Num hi | NInf \<Rightarrow> Num lo | _ \<Rightarrow> c)"

text \<open>
  \<^verbatim>\<open>Series.clip(lo, hi)\<close>: an infinity becomes the bound on its side, NaN stays NaN; a
  text cannot be compared (TypeError).
\<close>

definition clip :: "rat \<Rightarrow> rat \<Rightarrow> column \<Rightarrow> error + column" where
  "clip lo hi cs = (if list_ex is_text cs then Inl TypeError else Inr (map (clip_cell lo hi) cs))"

text \<open>
  \<^verbatim>\<open>Series.between(lo, hi, inclusive='both')\<close> on a numeric column: False at NaN and
  at an infinity.
\<close>

definition between :: "rat \<Rightarrow> rat \<Rightarrow> cell \<Rightarrow> bool" where
  "between lo hi c = (case c of Num x \<Rightarrow> lo \<le> x \<and> x \<le> hi | _ \<Rightarrow> False)"

subsection \<open>Dictionary lookup and binning\<close>

text \<open>\<^verbatim>\<open>Series.map(d)\<close> for a dict: a value that is no key becomes NaN.\<close>

definition series_map :: "(cell \<times> int) list \<Rightarrow> column \<Rightarrow> column" where
  "series_map d cs = map (\<lambda>c. case map_of d c of Some k \<Rightarrow> Num (of_int k) | None \<Rightarrow> NaN) cs"

datatype edge = Fin rat | Inf

fun edge_le :: "edge \<Rightarrow> rat \<Rightarrow> bool" where
  "edge_le (Fin b) x = (b \<le> x)"
| "edge_le Inf x = False"

text \<open>
  \<^verbatim>\<open>pd.cut(s, bins, labels, right=False, include_lowest=True)\<close>: the bin of a value
  is found by \<^verbatim>\<open>searchsorted(side='right')\<close>, the number of edges at or below the
  value; none or all of the edges means no bin, and the cell is NaN. So it is for the
  infinities: no edge is at or below the negative one, all are at or below the positive.
\<close>

definition cut_cell :: "edge list \<Rightarrow> int list \<Rightarrow> cell \<Rightarrow> cell" where
  "cut_cell bins labels c =
     (case c of
        Num x \<Rightarrow>
          (let k = length (filter (\<lambda>b. edge_le b x) bins) in
           if k = 0 \<or> k = length bins then NaN else Num (of_int (labels ! (k - 1))))
      | _ \<Rightarrow> NaN)"

definition cut :: "edge list \<Rightarrow> int list \<Rightarrow> column \<Rightarrow> column" where
  "cut bins labels cs = map (cut_cell bins labels) cs"

subsection \<open>Duplicate rows\<close>

text \<open>
  \<^verbatim>\<open>DataFrame.duplicated(keep='first')\<close> marks a row that equals a row seen before;
  \<^verbatim>\<open>drop_duplicates\<close> keeps the unmarked rows.
\<close>

fun duplicated :: "'a list \<Rightarrow> 'a list \<Rightarrow> bool list" where
  "duplicated seen [] = []"
| "duplicated seen (r # rs) = (r \<in> set seen) # duplicated (r # seen) rs"

definition select :: "bool list \<Rightarrow> 'a list \<Rightarrow> 'a list" where
  "select keep xs = map fst (filter snd (zip xs keep))"

definition drop_duplicates :: "table \<Rightarrow> table" where
  "drop_duplicates df =
     (let keep = map Not (duplicated [] (rows df))
      in map (\<lambda>(n, cs). (n, select keep cs)) df)"

text \<open>
  The index of a DataFrame is the list of the labels of its rows. No step of the program
  looks at it, and a table of the model holds its rows by position. The two steps
  that touch the index are modelled on a table with its index beside it:
  \<^verbatim>\<open>drop_duplicates\<close> leaves each kept row its label, and
  \<^verbatim>\<open>reset_index(drop=True)\<close> replaces the labels by 0, 1, 2, ...
\<close>

definition drop_duplicates_indexed :: "'a list \<times> table \<Rightarrow> 'a list \<times> table" where
  "drop_duplicates_indexed f =
     (case f of (index, df) \<Rightarrow>
        (select (map Not (duplicated [] (rows df))) index, drop_duplicates df))"

definition reset_index :: "'a list \<times> table \<Rightarrow> nat list \<times> table" where
  "reset_index f = (case f of (index, df) \<Rightarrow> ([0..<length index], df))"

section \<open>The program\<close>

text \<open>
  The steps are numbered as the comments of the source number them. Step 2 is
  \<^verbatim>\<open>df.drop_duplicates(inplace=True)\<close> followed by
  \<^verbatim>\<open>df.reset_index(drop=True, inplace=True)\<close>: on the table it is
  \<open>drop_duplicates\<close>, with the index it is \<open>handle_duplicates\<close> below. Step 3 of
  the source is a comment.
\<close>

text \<open>\<^verbatim>\<open>df.columns = df.columns.str.strip().str.replace(' ', '_')\<close>\<close>

definition normalize_columns :: "table \<Rightarrow> table" where
  "normalize_columns df = map (\<lambda>(n, cs). (replace_spaces (strip n), cs)) df"

text \<open>\<^verbatim>\<open>df[col] = f(df[col])\<close>, where \<open>f\<close> may raise.\<close>

definition assign :: "(column \<Rightarrow> error + column) \<Rightarrow> string \<Rightarrow> table \<Rightarrow> error + table" where
  "assign f col df = ebind (f (get_col df col)) (\<lambda>cs. Inr (set_col df col cs))"

text \<open>\<^verbatim>\<open>if col in df.columns: df[col] = f(df[col])\<close>\<close>

definition if_present :: "(column \<Rightarrow> error + column) \<Rightarrow> string \<Rightarrow> table \<Rightarrow> error + table" where
  "if_present f col df = (if col \<in> set (columns df) then assign f col df else Inr df)"

subsection \<open>1. Handle Missing Values\<close>

definition numeric_features :: "string list" where
  "numeric_features = [''BMI'', ''MentHlth'', ''PhysHlth'']"

definition coded_features :: "string list" where
  "coded_features =
     [''Diabetes_binary'', ''HighBP'', ''HighChol'', ''CholCheck'', ''Smoker'',
      ''Stroke'', ''HeartDiseaseorAttack'', ''PhysActivity'', ''Fruits'',
      ''Veggies'', ''HvyAlcoholConsump'', ''AnyHealthcare'', ''NoDocbcCost'',
      ''DiffWalk'', ''Sex'', ''GenHlth'', ''Age'', ''Education'', ''Income'']"

definition fill_median :: "column \<Rightarrow> error + column" where
  "fill_median cs = ebind (median cs) (\<lambda>m. Inr (fillna m cs))"

definition fill_mode :: "column \<Rightarrow> error + column" where
  "fill_mode cs = ebind (mode0 cs) (\<lambda>m. Inr (fillna m cs))"

definition impute_missing :: "string \<Rightarrow> table \<Rightarrow> error + table" where
  "impute_missing col df =
     (if col \<in> set numeric_features then assign fill_median col df
      else if col \<in> set coded_features then assign fill_mode col df
      else Inr df)"

definition handle_missing_values :: "table \<Rightarrow> error + table" where
  "handle_missing_values df = for_each impute_missing (columns df) df"

subsection \<open>2. Handle Duplicates\<close>

definition handle_duplicates :: "'a list \<times> table \<Rightarrow> nat list \<times> table" where
  "handle_duplicates f = reset_index (drop_duplicates_indexed f)"

subsection \<open>4. Encoding Categorical Features and Binning Numerical Features\<close>

definition binary_cols :: "string list" where
  "binary_cols =
     [''Diabetes_binary'', ''HighBP'', ''HighChol'', ''CholCheck'', ''Smoker'',
      ''Stroke'', ''HeartDiseaseorAttack'', ''PhysActivity'', ''Fruits'',
      ''Veggies'', ''HvyAlcoholConsump'', ''AnyHealthcare'', ''NoDocbcCost'',
      ''DiffWalk'', ''Sex'']"

text \<open>\<^verbatim>\<open>lambda x: 1 if x > 0 else 0\<close>\<close>

definition zero_or_one :: "cell \<Rightarrow> cell" where
  "zero_or_one c =
     (case c of Num x \<Rightarrow> if x > 0 then Num 1 else Num 0 | PInf \<Rightarrow> Num 1 | _ \<Rightarrow> Num 0)"

definition ensure_binary :: "(string \<Rightarrow> number option) \<Rightarrow> column \<Rightarrow> error + column" where
  "ensure_binary parse cs =
     ebind (astype_int (fillna (Num 0) (to_numeric_coerce parse cs)))
       (\<lambda>xs. Inr (map zero_or_one xs))"

definition genhlth_mapping :: "(cell \<times> int) list" where
  "genhlth_mapping =
     [(Num 1, 1), (Str ''excellent'', 1),
      (Num 2, 2), (Str ''very good'', 2),
      (Num 3, 3), (Str ''good'', 3),
      (Num 4, 4), (Str ''fair'', 4),
      (Num 5, 5), (Str ''poor'', 5)]"

definition education_mapping :: "(cell \<times> int) list" where
  "education_mapping =
     [(Num 1, 1), (Str ''never attended school or only kindergarten'', 1),
      (Num 2, 2), (Str ''elementary'', 2),
      (Num 3, 3), (Str ''middle school'', 3),
      (Num 4, 4), (Str ''high school'', 4),
      (Num 5, 5), (Str ''less than 4 years college'', 5),
      (Num 6, 6), (Str ''4 years college or more'', 6)]"

text \<open>
  The body of \<^verbatim>\<open>if 'GenHlth' in df.columns\<close>, and of the same block for Education,
  with the dictionary and the range of the scale.
\<close>

definition encode_scale ::
  "(string \<Rightarrow> number option) \<Rightarrow> (cell \<times> int) list \<Rightarrow> rat \<Rightarrow> rat \<Rightarrow> column \<Rightarrow> error + column" where
  "encode_scale parse d lo hi cs =
     ebind
       (if \<not> (numeric_dtype cs \<and> list_all (between lo hi) cs) then
          (let mapped = series_map d cs in
           ebind (mode0 mapped) (\<lambda>m. astype_int (fillna m (to_numeric_coerce parse mapped))))
        else Inr cs)
       (clip lo hi)"

definition age_bins :: "edge list" where
  "age_bins = [Fin 18, Fin 25, Fin 30, Fin 35, Fin 40, Fin 45, Fin 50, Fin 55, Fin 60,
               Fin 65, Fin 70, Fin 75, Fin 80, Inf]"

definition age_labels :: "int list" where
  "age_labels = [1, 2, 3, 4, 5, 6, 7, 8, 9, 10, 11, 12, 13]"

definition income_bins :: "edge list" where
  "income_bins = [Fin 0, Fin 10000, Fin 15000, Fin 20000, Fin 25000, Fin 35000, Fin 50000,
                  Fin 75000, Inf]"

definition income_labels :: "int list" where
  "income_labels = [1, 2, 3, 4, 5, 6, 7, 8]"

text \<open>\<^verbatim>\<open>labels[len(labels)//2 - 1]\<close>, the fill of a column that is all NaN.\<close>

definition fallback_label :: "int list \<Rightarrow> cell" where
  "fallback_label labels = Num (of_int (labels ! (length labels div 2 - 1)))"

text \<open>
  The fill before the binning:
  \<^verbatim>\<open>fillna(median() if not isnull().all() else labels[len(labels)//2 - 1])\<close>.
\<close>

definition fill_before_cut :: "int list \<Rightarrow> column \<Rightarrow> error + column" where
  "fill_before_cut labels xs =
     ebind (if \<not> list_all isnull xs then median xs else Inr (fallback_label labels))
       (\<lambda>m. Inr (fillna m xs))"

text \<open>
  The body of \<^verbatim>\<open>if 'Age' in df.columns\<close>, and of the same block for Income, with
  the bins, the labels and the range of the codes.
\<close>

definition bin_feature ::
  "(string \<Rightarrow> number option) \<Rightarrow> edge list \<Rightarrow> int list \<Rightarrow> rat \<Rightarrow> rat \<Rightarrow> column \<Rightarrow> error + column" where
  "bin_feature parse bins labels lo hi cs =
     ebind
       (if \<not> (numeric_dtype cs \<and> list_all (between lo hi) cs) then
          ebind (fill_before_cut labels (to_numeric_coerce parse cs))
            (\<lambda>xs. Inr (cut bins labels xs))
        else Inr cs)
       (to_numeric parse)"

text \<open>The body of \<^verbatim>\<open>if 'MentHlth' in df.columns\<close>, and of the same block for PhysHlth.\<close>

definition clip_days :: "(string \<Rightarrow> number option) \<Rightarrow> column \<Rightarrow> error + column" where
  "clip_days parse cs =
     ebind (median cs) (\<lambda>m.
     ebind (clip 0 30 (fillna m (to_numeric_coerce parse cs))) astype_int)"

definition encode_features :: "(string \<Rightarrow> number option) \<Rightarrow> table \<Rightarrow> error + table" where
  "encode_features parse df =
     ebind (for_each (\<lambda>col. if_present (ensure_binary parse) col) binary_cols df) (\<lambda>df.
     ebind (if_present (encode_scale parse genhlth_mapping 1 5) ''GenHlth'' df) (\<lambda>df.
     ebind (if_present (encode_scale parse education_mapping 1 6) ''Education'' df) (\<lambda>df.
     ebind (if_present (bin_feature parse age_bins age_labels 1 13) ''Age'' df) (\<lambda>df.
     ebind (if_present (bin_feature parse income_bins income_labels 1 8) ''Income'' df) (\<lambda>df.
     ebind (if_present (clip_days parse) ''MentHlth'' df) (\<lambda>df.
     if_present (clip_days parse) ''PhysHlth'' df))))))"

subsection \<open>5. Ensure Correct Data Types (Final check)\<close>

definition final_fill :: "(string \<Rightarrow> number option) \<Rightarrow> string \<Rightarrow> column \<Rightarrow> error + column" where
  "final_fill parse col cs =
     (let xs = to_numeric_coerce parse cs in
      if list_ex isnull xs then
        (if col \<in> set binary_cols \<or> col \<in> set [''GenHlth'', ''Age'', ''Education'', ''Income'']
         then fill_mode xs
         else fill_median xs)
      else Inr xs)"

definition ensure_data_types :: "(string \<Rightarrow> number option) \<Rightarrow> table \<Rightarrow> error + table" where
  "ensure_data_types parse df = for_each (\<lambda>col. assign (final_fill parse col) col) (columns df) df"

subsection \<open>The whole function\<close>

definition preprocess_survey_data :: "(string \<Rightarrow> number option) \<Rightarrow> table \<Rightarrow> error + table" where
  "preprocess_survey_data parse df =
     ebind (handle_missing_values (normalize_columns df)) (\<lambda>df.
     ebind (encode_features parse (drop_duplicates df)) (\<lambda>df.
     ensure_data_types parse df))"

section \<open>The passes, column by column\<close>

text \<open>
  Each pass of the program rewrites columns one by one, a column by a function of its
  name and its cells. These are the functions, and the table a pass yields when no
  column raises.
\<close>

definition apply_cols :: "(string \<Rightarrow> column \<Rightarrow> error + column) \<Rightarrow> table \<Rightarrow> table" where
  "apply_cols F df = map (\<lambda>(n, cs). (n, projr (F n cs))) df"

definition cols_ok :: "(string \<Rightarrow> column \<Rightarrow> error + column) \<Rightarrow> table \<Rightarrow> bool" where
  "cols_ok F df = list_all (\<lambda>(n, cs). \<not> isl (F n cs)) df"

definition impute_fun :: "string \<Rightarrow> column \<Rightarrow> error + column" where
  "impute_fun col cs =
     (if col \<in> set numeric_features then fill_median cs
      else if col \<in> set coded_features then fill_mode cs
      else Inr cs)"

definition encode_fun :: "(string \<Rightarrow> number option) \<Rightarrow> string \<Rightarrow> column \<Rightarrow> error + column" where
  "encode_fun parse col cs =
     (if col \<in> set binary_cols then ensure_binary parse cs
      else if col = ''GenHlth'' then encode_scale parse genhlth_mapping 1 5 cs
      else if col = ''Education'' then encode_scale parse education_mapping 1 6 cs
      else if col = ''Age'' then bin_feature parse age_bins age_labels 1 13 cs
      else if col = ''Income'' then bin_feature parse income_bins income_labels 1 8 cs
      else if col = ''MentHlth'' then clip_days parse cs
      else if col = ''PhysHlth'' then clip_days parse cs
      else Inr cs)"

definition encoded_cols :: "string list" where
  "encoded_cols = binary_cols @ [''GenHlth'', ''Education'', ''Age'', ''Income'', ''MentHlth'', ''PhysHlth'']"

text \<open>The tables between the passes, when no column raises.\<close>

definition imputed :: "table \<Rightarrow> table" where
  "imputed df = apply_cols impute_fun (normalize_columns df)"

definition deduped :: "table \<Rightarrow> table" where
  "deduped df = drop_duplicates (imputed df)"

definition encoded :: "(string \<Rightarrow> number option) \<Rightarrow> table \<Rightarrow> table" where
  "encoded parse df = apply_cols (encode_fun parse) (deduped df)"

section \<open>Notions of the claims\<close>

text \<open>A table as a DataFrame has it: columns of one length, names that differ (once normalised).\<close>

definition wf_table :: "table \<Rightarrow> bool" where
  "wf_table df = (distinct (columns (normalize_columns df)) \<and> rectangular df)"

definition integral :: "cell \<Rightarrow> bool" where
  "integral c = (case c of Num x \<Rightarrow> x = of_int \<lfloor>x\<rfloor> | _ \<Rightarrow> False)"

text \<open>
  The binary code of a cell: the cell is coerced to a number; no number gives 0; a
  number of at least 1 and below \<open>2 ^ 63\<close> gives 1, any other number 0.
\<close>

definition binary_value :: "(string \<Rightarrow> number option) \<Rightarrow> cell \<Rightarrow> cell" where
  "binary_value parse c =
     (case to_numeric_cell parse c of
        Num x \<Rightarrow> if 1 \<le> x \<and> x < 2 ^ 63 then Num 1 else Num 0
      | _ \<Rightarrow> Num 0)"

text \<open>
  The rows that survive the deduplication, in the words of claim C8: the positions of
  the rows that equal no earlier row, in order.
\<close>

definition survivors :: "table \<Rightarrow> nat list" where
  "survivors df = filter (\<lambda>i. \<not> list_ex (\<lambda>j. row df j = row df i) [0..<i]) [0..<nrows df]"

text \<open>
  A clean column, in the words of the invariants of the specification: no text and no
  missing entry; 0 or 1 in a binary column; integers in range in the ordinal and the
  day-count columns. A clean table is a well-formed table of clean columns (under their normalised
  names) with no two rows equal.
\<close>

definition clean_col :: "string \<Rightarrow> column \<Rightarrow> bool" where
  "clean_col col cs =
     (list_all (\<lambda>c. \<not> isnull c \<and> \<not> is_text c) cs \<and>
      (if col \<in> set binary_cols then list_all (\<lambda>c. c = Num 0 \<or> c = Num 1) cs
       else if col = ''GenHlth'' then list_all (\<lambda>c. between 1 5 c \<and> integral c) cs
       else if col = ''Education'' then list_all (\<lambda>c. between 1 6 c \<and> integral c) cs
       else if col = ''Age'' then list_all (\<lambda>c. between 1 13 c \<and> integral c) cs
       else if col = ''Income'' then list_all (\<lambda>c. between 1 8 c \<and> integral c) cs
       else if col = ''MentHlth'' \<or> col = ''PhysHlth''
         then list_all (\<lambda>c. between 0 30 c \<and> integral c) cs
       else True))"

definition clean :: "table \<Rightarrow> bool" where
  "clean df =
     (wf_table df \<and>
      list_all (\<lambda>(n, cs). clean_col n cs) (normalize_columns df) \<and>
      distinct (rows df))"

section \<open>Facts about the operations\<close>

lemma ebind_Inr_iff: "ebind m f = Inr y \<longleftrightarrow> (\<exists>x. m = Inr x \<and> f x = Inr y)"
  by (cases m) (simp_all add: ebind_def)

lemma ebind_Inr [simp]: "ebind (Inr x) f = f x"
  by (simp add: ebind_def)

lemma ebind_Inl [simp]: "ebind (Inl e) f = Inl e"
  by (simp add: ebind_def)

lemma length_fillna [simp]: "length (fillna v cs) = length cs"
  by (simp add: fillna_def)

lemma fillna_id: "\<not> list_ex isnull cs \<Longrightarrow> fillna v cs = cs"
  by (induction cs) (simp_all add: fillna_def)


lemma set_fillna_subset: "set (fillna v cs) \<subseteq> insert v (set cs - {NaN})"
  by (auto simp: fillna_def isnull_def)

lemma count_le_fold_max: "x \<in> set xs \<Longrightarrow> (x::nat) \<le> fold max xs a"
  by (metis List.finite_set Max.set_eq_fold Max_ge list.set_intros(2))

lemma fold_max_mem: "xs \<noteq> [] \<Longrightarrow> fold max xs (0::nat) \<in> set xs"
proof -
  assume ne: "xs \<noteq> []"
  have "fold max xs 0 = Max (set (0 # xs))" by (rule Max.set_eq_fold[symmetric])
  also have "\<dots> = Max (insert 0 (set xs))" by simp
  also have "\<dots> = max 0 (Max (set xs))" using ne by simp
  also have "\<dots> = Max (set xs)" by simp
  finally show ?thesis using ne Max_in[of "set xs"] by simp
qed

lemma set_first_seen [simp]: "set (first_seen xs) = set xs"
  by (simp add: first_seen_def)

lemma modes_subset: "set (modes cs) \<subseteq> set cs - {NaN}"
  by (auto simp: modes_def Let_def isnull_def)

lemma modes_nonempty:
  assumes "\<not> list_all isnull cs" shows "modes cs \<noteq> []"
proof -
  define vs where "vs = filter (\<lambda>c. \<not> isnull c) cs"
  have ne: "vs \<noteq> []" using assms unfolding vs_def by (induction cs) auto
  then have "map (count_list vs) vs \<noteq> []" by simp
  from fold_max_mem[OF this] obtain v where "v \<in> set vs" "count_list vs v = fold max (map (count_list vs) vs) 0"
    by auto
  then have "v \<in> set (modes cs)" by (simp add: modes_def Let_def vs_def)
  then show ?thesis by auto
qed

lemma modes_empty: "list_all isnull cs \<Longrightarrow> modes cs = []"
proof -
  assume "list_all isnull cs"
  then have "filter (\<lambda>c. \<not> isnull c) cs = []" by (induction cs) auto
  then show ?thesis by (simp add: modes_def Let_def first_seen_def)
qed

lemma set_numbers: "set (numbers cs) = {x. Num x \<in> set cs}"
  by (induction cs rule: numbers.induct) auto

lemma set_sort_values: "set (sort_values cs) = {c \<in> set cs. c \<noteq> NaN \<and> \<not> is_text c}"
proof -
  have "c \<in> set (sort_values cs) \<longleftrightarrow> c \<in> set cs \<and> c \<noteq> NaN \<and> \<not> is_text c" for c
    by (cases c) (auto simp: sort_values_def set_numbers is_text_def)
  then show ?thesis by blast
qed

lemma Str_texts: "list_all is_text ms \<Longrightarrow> map Str (texts ms) = ms"
  by (induction ms rule: texts.induct) (simp_all add: is_text_def)

lemma set_sort_modes: "NaN \<notin> set ms \<Longrightarrow> set (sort_modes ms) = set ms"
proof -
  assume n: "NaN \<notin> set ms"
  have a: "list_all (\<lambda>c. \<not> is_text c) ms \<Longrightarrow> set (sort_values ms) = set ms"
    using n by (auto simp: set_sort_values list_all_iff)
  have b: "list_all is_text ms \<Longrightarrow> Str ` set (texts ms) = set ms"
    using Str_texts by (metis set_map)
  show ?thesis using a b by (simp add: sort_modes_def)
qed

lemma mode0_Inr: "mode0 cs = Inr v \<Longrightarrow> v \<in> set cs \<and> v \<noteq> NaN"
proof -
  assume a: "mode0 cs = Inr v"
  have n: "NaN \<notin> set (modes cs)" using modes_subset by auto
  from a have "v \<in> set (sort_modes (modes cs))"
    by (auto simp: mode0_def split: list.splits)
  then have "v \<in> set (modes cs)" using set_sort_modes[OF n] by simp
  then show ?thesis using modes_subset by auto
qed

lemma mode0_Inl: "mode0 cs = Inl e \<Longrightarrow> e = KeyError \<and> list_all isnull cs"
proof -
  assume a: "mode0 cs = Inl e"
  have n: "NaN \<notin> set (modes cs)" using modes_subset by auto
  from a have "sort_modes (modes cs) = []" "e = KeyError"
    by (auto simp: mode0_def split: list.splits)
  then have "set (modes cs) = {}" using set_sort_modes[OF n] by simp
  then show ?thesis using modes_nonempty \<open>e = KeyError\<close> by auto
qed

lemma mode0_all_null: "list_all isnull cs \<Longrightarrow> mode0 cs = Inl KeyError"
  by (simp add: mode0_def modes_empty sort_modes_def sort_values_def)

lemma mode0_ok: "\<not> list_all isnull cs \<Longrightarrow> \<exists>v. mode0 cs = Inr v"
  by (metis mode0_Inl sum.collapse)

lemma to_numeric_cell_id: "\<not> is_text c \<Longrightarrow> to_numeric_cell parse c = c"
  by (cases c) (simp_all add: to_numeric_cell_def is_text_def)

lemma to_numeric_coerce_id: "\<not> list_ex is_text cs \<Longrightarrow> to_numeric_coerce parse cs = cs"
  by (induction cs) (simp_all add: to_numeric_coerce_def to_numeric_cell_id)

lemma cell_of_not_text [simp]: "\<not> is_text (cell_of v)"
  by (cases v) (simp_all add: is_text_def)

lemma to_numeric_cell_not_text [simp]: "\<not> is_text (to_numeric_cell parse c)"
  by (cases c) (simp_all add: to_numeric_cell_def is_text_def[of PInf] is_text_def[of NInf]
      is_text_def[of NaN] is_text_def[of "Num x" for x] split: option.splits)

lemma to_numeric_coerce_no_text [simp]: "\<not> list_ex is_text (to_numeric_coerce parse cs)"
  by (induction cs) (simp_all add: to_numeric_coerce_def)

lemma length_to_numeric_coerce [simp]: "length (to_numeric_coerce parse cs) = length cs"
  by (simp add: to_numeric_coerce_def)

lemma to_numeric_id: "\<not> list_ex is_text cs \<Longrightarrow> to_numeric parse cs = Inr cs"
proof -
  assume a: "\<not> list_ex is_text cs"
  then have "\<not> list_ex (\<lambda>c. is_text c \<and> to_numeric_cell parse c = NaN) cs"
    by (induction cs) simp_all
  moreover have "map (to_numeric_cell parse) cs = cs"
    using to_numeric_coerce_id[OF a] by (simp add: to_numeric_coerce_def)
  ultimately show ?thesis by (simp add: to_numeric_def)
qed

lemma trunc_of_int [simp]: "trunc (of_int k) = k"
  by (simp add: trunc_def)

lemma int64_of_of_int: "- (2 ^ 63) \<le> k \<Longrightarrow> k < 2 ^ 63 \<Longrightarrow> int64_of (of_int k) = k"
  by (simp add: int64_of_def)

lemma series_map_cells:
  "c \<in> set (series_map d cs) \<Longrightarrow> c = NaN \<or> (\<exists>k \<in> snd ` set d. c = Num (of_int k))"
  by (auto simp: series_map_def split: option.splits dest!: map_of_SomeD) force

lemma series_map_no_text [simp]: "\<not> list_ex is_text (series_map d cs)"
  by (induction cs) (simp_all add: series_map_def is_text_def split: option.splits)

lemma astype_int_codes:
  assumes "\<forall>c \<in> set cs. \<exists>k. c = Num (of_int k) \<and> - (2 ^ 63) \<le> k \<and> k < 2 ^ 63"
  shows "astype_int cs = Inr cs"
proof -
  have a: "list_all is_number cs"
    using assms by (auto simp: list_all_iff is_number_def)
  have "map (\<lambda>c. case c of Num x \<Rightarrow> Num (of_int (int64_of x)) | _ \<Rightarrow> c) cs = map (\<lambda>c. c) cs"
    by (rule map_cong) (use assms in \<open>auto simp: int64_of_of_int\<close>)
  then show ?thesis using a by (simp add: astype_int_def)
qed

lemma clip_codes:
  assumes "\<forall>c \<in> set cs. \<exists>x. c = Num x \<and> lo \<le> x \<and> x \<le> hi"
  shows "clip lo hi cs = Inr cs"
proof -
  have a: "\<not> list_ex is_text cs" using assms by (auto simp: list_ex_iff is_text_def)
  have "map (clip_cell lo hi) cs = map (\<lambda>c. c) cs"
    by (rule map_cong) (use assms in \<open>auto simp: clip_cell_def\<close>)
  then show ?thesis using a by (simp add: clip_def)
qed

lemma encode_scale_remap:
  assumes gate: "\<not> (numeric_dtype cs \<and> list_all (between lo hi) cs)"
    and codes: "\<forall>k \<in> snd ` set d. lo \<le> of_int k \<and> of_int k \<le> hi \<and> - (2 ^ 63) \<le> k \<and> k < 2 ^ 63"
  shows "encode_scale parse d lo hi cs =
           (case mode0 (series_map d cs) of
              Inl e \<Rightarrow> Inl e
            | Inr m \<Rightarrow> Inr (fillna m (series_map d cs)))"
proof (cases "mode0 (series_map d cs)")
  case (Inl e)
  then show ?thesis using gate by (simp add: encode_scale_def)
next
  case (Inr m)
  define ys where "ys = fillna m (series_map d cs)"
  from mode0_Inr[OF Inr] have m: "m \<in> set (series_map d cs)" "m \<noteq> NaN" by auto
  have cells: "\<forall>c \<in> set ys. \<exists>k \<in> snd ` set d. c = Num (of_int k)"
  proof
    fix c assume "c \<in> set ys"
    then have "c = m \<or> (c \<in> set (series_map d cs) \<and> c \<noteq> NaN)"
      using set_fillna_subset[of m "series_map d cs"] by (auto simp: ys_def)
    then show "\<exists>k \<in> snd ` set d. c = Num (of_int k)"
      using m series_map_cells by blast
  qed
  have a: "astype_int ys = Inr ys"
    by (rule astype_int_codes) (use cells codes in blast)
  have c: "clip lo hi ys = Inr ys"
    by (rule clip_codes) (use cells codes in blast)
  show ?thesis using gate Inr a c
    by (simp add: encode_scale_def to_numeric_coerce_id ys_def)
qed


lemma genhlth_codes:
  "\<forall>k \<in> snd ` set genhlth_mapping. (1::rat) \<le> of_int k \<and> of_int k \<le> (5::rat) \<and> - (2 ^ 63) \<le> k \<and> k < 2 ^ 63"
  by (simp add: genhlth_mapping_def)

lemma education_codes:
  "\<forall>k \<in> snd ` set education_mapping. (1::rat) \<le> of_int k \<and> of_int k \<le> (6::rat) \<and> - (2 ^ 63) \<le> k \<and> k < 2 ^ 63"
  by (simp add: education_mapping_def)


lemma labels:
  "map_of genhlth_mapping (Str ''excellent'') = Some 1 \<and>
   map_of genhlth_mapping (Str ''very good'') = Some 2 \<and>
   map_of genhlth_mapping (Str ''good'') = Some 3 \<and>
   map_of genhlth_mapping (Str ''fair'') = Some 4 \<and>
   map_of genhlth_mapping (Str ''poor'') = Some 5 \<and>
   map_of education_mapping (Str ''never attended school or only kindergarten'') = Some 1 \<and>
   map_of education_mapping (Str ''elementary'') = Some 2 \<and>
   map_of education_mapping (Str ''middle school'') = Some 3 \<and>
   map_of education_mapping (Str ''high school'') = Some 4 \<and>
   map_of education_mapping (Str ''less than 4 years college'') = Some 5 \<and>
   map_of education_mapping (Str ''4 years college or more'') = Some 6"
  by (simp add: genhlth_mapping_def education_mapping_def)


lemma cut_no_text [simp]: "\<not> list_ex is_text (cut bins labels cs)"
  by (induction cs) (auto simp: cut_def cut_cell_def is_text_def Let_def split: cell.splits)

lemma length_cut [simp]: "length (cut bins labels cs) = length cs"
  by (simp add: cut_def)

lemma median_no_text: "\<not> list_ex is_text cs \<Longrightarrow> median cs = Inr (median_of cs)"
  by (simp add: median_def)

lemma no_null_not_all_null: "cs \<noteq> [] \<Longrightarrow> \<not> list_ex isnull cs \<Longrightarrow> \<not> list_all isnull cs"
  by (cases cs) auto


lemma final_fill_coded:
  assumes "\<not> list_ex is_text xs" "xs \<noteq> []"
    "col \<in> set binary_cols \<or> col \<in> set [''GenHlth'', ''Age'', ''Education'', ''Income'']"
  shows "final_fill parse col xs =
           (case mode0 xs of Inl e \<Rightarrow> Inl e | Inr m \<Rightarrow> Inr (fillna m xs))"
proof (cases "list_ex isnull xs")
  case True
  then show ?thesis using assms
    by (simp add: final_fill_def to_numeric_coerce_id fill_mode_def ebind_def)
next
  case False
  from mode0_ok[OF no_null_not_all_null[OF assms(2) False]] obtain m where "mode0 xs = Inr m" ..
  then show ?thesis using False assms(1)
    by (simp add: final_fill_def to_numeric_coerce_id fillna_id)
qed

section \<open>Passes over the columns\<close>

lemma columns_set_col [simp]: "columns (set_col df c v) = columns df"
  by (simp add: columns_def set_col_def case_prod_unfold comp_def)

lemma map_of_map_cols:
  "map_of (map (\<lambda>(n, cs). (n, g n cs)) df) k = map_option (g k) (map_of df k)"
  by (induction df) auto

lemma map_of_None_columns: "map_of df k = None \<longleftrightarrow> k \<notin> set (columns df)"
  by (simp add: columns_def map_of_eq_None_iff)

lemma get_col_set_col:
  "get_col (set_col df c v) c' = (if c' = c \<and> c \<in> set (columns df) then v else get_col df c')"
proof (cases "map_of df c'")
  case None
  then show ?thesis
    using map_of_None_columns[of df c'] by (auto simp: get_col_def set_col_def map_of_map_cols)
next
  case (Some a)
  then have "c' \<in> set (columns df)" using map_of_None_columns[of df c'] by auto
  then show ?thesis using Some by (auto simp: get_col_def set_col_def map_of_map_cols)
qed

lemma get_col_mem: "distinct (columns df) \<Longrightarrow> (n, cs) \<in> set df \<Longrightarrow> get_col df n = cs"
  by (simp add: get_col_def columns_def)

lemma for_each_append:
  "for_each f (xs @ ys) s = ebind (for_each f xs s) (for_each f ys)"
  by (induction xs arbitrary: s) (auto split: sum.splits)

lemma for_each_cong:
  "(\<And>x s. x \<in> set xs \<Longrightarrow> f x s = g x s) \<Longrightarrow> for_each f xs s = for_each g xs s"
  by (induction xs arbitrary: s) (auto split: sum.splits)

lemma for_each_cols_aux:
  assumes "distinct cols"
    and "\<And>c d. c \<in> set cols \<Longrightarrow> columns d = columns df \<Longrightarrow> B c d = if_present (F c) c d"
  shows "for_each B cols df = Inr out \<longleftrightarrow>
           (\<forall>n \<in> set cols \<inter> set (columns df). \<not> isl (F n (get_col df n))) \<and>
           out = map (\<lambda>(n, cs). (n, if n \<in> set cols then projr (F n (get_col df n)) else cs)) df"
  using assms
proof (induction cols arbitrary: df)
  case Nil
  have "map (\<lambda>(n, cs). (n, cs)) df = df" by (induction df) auto
  then show ?case by auto
next
  case (Cons c cols)
  have B: "B c df = if_present (F c) c df" using Cons.prems(2)[of c df] by simp
  show ?case
  proof (cases "c \<in> set (columns df)")
    case False
    have step: "B c df = Inr df" using B False by (simp add: if_present_def)
    have ih: "for_each B cols df = Inr out \<longleftrightarrow>
           (\<forall>n \<in> set cols \<inter> set (columns df). \<not> isl (F n (get_col df n))) \<and>
           out = map (\<lambda>(n, cs). (n, if n \<in> set cols then projr (F n (get_col df n)) else cs)) df"
      using Cons.IH[of df] Cons.prems by simp
    have m: "map (\<lambda>(n, cs). (n, if n \<in> set (c # cols) then projr (F n (get_col df n)) else cs)) df
           = map (\<lambda>(n, cs). (n, if n \<in> set cols then projr (F n (get_col df n)) else cs)) df"
      by (rule map_cong) (use False in \<open>force simp: columns_def\<close>)+
    have lhs: "for_each B (c # cols) df = for_each B cols df" using step by simp
    have c1: "(\<forall>n \<in> set (c # cols) \<inter> set (columns df). \<not> isl (F n (get_col df n)))
            \<longleftrightarrow> (\<forall>n \<in> set cols \<inter> set (columns df). \<not> isl (F n (get_col df n)))"
      using False by auto
    show ?thesis unfolding lhs m c1 by (rule ih)
  next
    case True
    show ?thesis
    proof (cases "F c (get_col df c)")
      case (Inl e)
      then have "B c df = Inl e" using B True by (simp add: if_present_def assign_def)
      then show ?thesis using Inl True by auto
    next
      case (Inr v)
      define d' where "d' = set_col df c v"
      have step: "B c df = Inr d'" using B True Inr by (simp add: if_present_def assign_def d'_def)
      have cols: "columns d' = columns df" by (simp add: d'_def)
      have notin: "c \<notin> set cols" using Cons.prems(1) by simp
      have get: "get_col d' n = get_col df n" if "n \<noteq> c" for n
        using that by (simp add: d'_def get_col_set_col)
      have ih: "for_each B cols d' = Inr out \<longleftrightarrow>
           (\<forall>n \<in> set cols \<inter> set (columns d'). \<not> isl (F n (get_col d' n))) \<and>
           out = map (\<lambda>(n, cs). (n, if n \<in> set cols then projr (F n (get_col d' n)) else cs)) d'"
        using Cons.IH[of d'] Cons.prems cols by simp
      have dd: "d' = map (\<lambda>(n, old). (n, if n = c then v else old)) df"
        by (simp add: d'_def set_col_def)
      have "map (\<lambda>(n, cs). (n, if n \<in> set cols then projr (F n (get_col d' n)) else cs)) d'
           = map (\<lambda>(n, cs). (n, if n \<in> set cols then projr (F n (get_col d' n)) else cs))
               (map (\<lambda>(n, old). (n, if n = c then v else old)) df)"
        by (rule arg_cong[where f = "map (\<lambda>(n, cs). (n, if n \<in> set cols then projr (F n (get_col d' n)) else cs))"])
           (rule dd)
      also have "\<dots> = map (\<lambda>(n, cs). (n, if n \<in> set (c # cols) then projr (F n (get_col df n)) else cs)) df"
        unfolding map_map
      proof (rule map_cong)
        fix x assume "x \<in> set df"
        obtain n cs where x: "x = (n, cs)" by (cases x)
        show "((\<lambda>(n, cs). (n, if n \<in> set cols then projr (F n (get_col d' n)) else cs)) \<circ>
               (\<lambda>(n, old). (n, if n = c then v else old))) x
            = (\<lambda>(n, cs). (n, if n \<in> set (c # cols) then projr (F n (get_col df n)) else cs)) x"
        proof (cases "n = c")
          case True
          then show ?thesis using notin Inr x by simp
        next
          case False
          then show ?thesis using get[OF False] x by simp
        qed
      qed simp
      finally have m: "map (\<lambda>(n, cs). (n, if n \<in> set cols then projr (F n (get_col d' n)) else cs)) d'
           = map (\<lambda>(n, cs). (n, if n \<in> set (c # cols) then projr (F n (get_col df n)) else cs)) df" .
      have c1: "(\<forall>n \<in> set cols \<inter> set (columns d'). \<not> isl (F n (get_col d' n)))
            \<longleftrightarrow> (\<forall>n \<in> set (c # cols) \<inter> set (columns df). \<not> isl (F n (get_col df n)))"
      proof -
        have get': "get_col d' n = get_col df n" if "n \<in> set cols" for n
          using get[of n] that notin by auto
        show ?thesis using Inr cols get' by auto
      qed
      have lhs: "for_each B (c # cols) df = for_each B cols d'" using step by simp
      show ?thesis unfolding lhs m[symmetric] c1[symmetric] by (rule ih)
    qed
  qed
qed

lemma columns_apply_cols [simp]: "columns (apply_cols F df) = columns df"
  by (simp add: columns_def apply_cols_def case_prod_unfold comp_def)

lemma columns_drop_duplicates [simp]: "columns (drop_duplicates df) = columns df"
  by (simp add: columns_def drop_duplicates_def Let_def case_prod_unfold comp_def)

lemma get_col_apply_cols:
  "get_col (apply_cols F df) n = (if n \<in> set (columns df) then projr (F n (get_col df n)) else [])"
proof (cases "map_of df n")
  case None
  then show ?thesis using map_of_None_columns[of df n]
    by (auto simp: get_col_def apply_cols_def map_of_map_cols)
next
  case (Some a)
  then have "n \<in> set (columns df)" using map_of_None_columns[of df n] by auto
  then show ?thesis using Some by (auto simp: get_col_def apply_cols_def map_of_map_cols)
qed

lemma get_col_absent: "n \<notin> set (columns df) \<Longrightarrow> get_col df n = []"
  using map_of_None_columns[of df n] by (auto simp: get_col_def)

lemma set_col_get_col: "distinct (columns df) \<Longrightarrow> set_col df c (get_col df c) = df"
proof -
  assume d: "distinct (columns df)"
  have "map (\<lambda>(n, old). (n, if n = c then get_col df c else old)) df = map (\<lambda>x. x) df"
    by (rule map_cong) (use get_col_mem[OF d] in auto)
  then show ?thesis by (simp add: set_col_def)
qed

lemma pass_iff:
  assumes dist: "distinct (columns df)" "distinct cols"
    and body: "\<And>c d. c \<in> set cols \<Longrightarrow> columns d = columns df \<Longrightarrow> B c d = if_present (F c) c d"
    and rest: "\<And>n cs. (n, cs) \<in> set df \<Longrightarrow> n \<notin> set cols \<Longrightarrow> F n cs = Inr cs"
  shows "for_each B cols df = Inr out \<longleftrightarrow> cols_ok F df \<and> out = apply_cols F df"
proof -
  have ok: "(\<forall>n \<in> set cols \<inter> set (columns df). \<not> isl (F n (get_col df n))) \<longleftrightarrow> cols_ok F df"
  proof
    assume a: "\<forall>n \<in> set cols \<inter> set (columns df). \<not> isl (F n (get_col df n))"
    have "\<not> isl (F n cs)" if "(n, cs) \<in> set df" for n cs
    proof (cases "n \<in> set cols")
      case True
      have "n \<in> set (columns df)" using that by (force simp: columns_def)
      then show ?thesis using a True get_col_mem[OF dist(1) that] by auto
    next
      case False
      then show ?thesis using rest[OF that] by simp
    qed
    then show "cols_ok F df" by (auto simp: cols_ok_def list_all_iff)
  next
    assume a: "cols_ok F df"
    show "\<forall>n \<in> set cols \<inter> set (columns df). \<not> isl (F n (get_col df n))"
    proof
      fix n assume "n \<in> set cols \<inter> set (columns df)"
      then obtain cs where m: "(n, cs) \<in> set df" by (auto simp: columns_def)
      then show "\<not> isl (F n (get_col df n))"
        using a get_col_mem[OF dist(1) m] by (auto simp: cols_ok_def list_all_iff)
    qed
  qed
  have mp: "map (\<lambda>(n, cs). (n, if n \<in> set cols then projr (F n (get_col df n)) else cs)) df
              = apply_cols F df"
    unfolding apply_cols_def
  proof (rule map_cong)
    fix x assume x: "x \<in> set df"
    obtain n cs where nc: "x = (n, cs)" by (cases x)
    show "(\<lambda>(n, cs). (n, if n \<in> set cols then projr (F n (get_col df n)) else cs)) x
        = (\<lambda>(n, cs). (n, projr (F n cs))) x"
      using x nc get_col_mem[OF dist(1), of n cs] rest[of n cs] by auto
  qed simp
  show ?thesis
    using for_each_cols_aux[OF dist(2), of df B F out] body by (simp add: ok mp)
qed

lemma handle_missing_values_iff:
  assumes "distinct (columns df)"
  shows "handle_missing_values df = Inr out \<longleftrightarrow>
           cols_ok impute_fun df \<and> out = apply_cols impute_fun df"
  unfolding handle_missing_values_def
proof (rule pass_iff[OF assms assms])
  fix c d assume c: "c \<in> set (columns df)" and d: "columns d = columns df"
  have "set_col d c (get_col d c) = d" using set_col_get_col[of d c] assms d by simp
  then show "impute_missing c d = if_present (impute_fun c) c d"
    using c d by (simp add: impute_missing_def if_present_def impute_fun_def assign_def)
next
  fix n cs assume "(n, cs) \<in> set df" "n \<notin> set (columns df)"
  then show "impute_fun n cs = Inr cs" by (force simp: columns_def)
qed

lemma ensure_data_types_iff:
  assumes "distinct (columns df)"
  shows "ensure_data_types parse df = Inr out \<longleftrightarrow>
           cols_ok (final_fill parse) df \<and> out = apply_cols (final_fill parse) df"
  unfolding ensure_data_types_def
proof (rule pass_iff[OF assms assms])
  fix c d assume c: "c \<in> set (columns df)" and d: "columns d = columns df"
  then show "assign (final_fill parse c) c d = if_present (final_fill parse c) c d"
    by (simp add: if_present_def)
next
  fix n cs assume "(n, cs) \<in> set df" "n \<notin> set (columns df)"
  then show "final_fill parse n cs = Inr cs" by (force simp: columns_def)
qed

lemma distinct_encoded_cols: "distinct encoded_cols"
  by (simp add: encoded_cols_def binary_cols_def)

lemma encode_features_loop:
  "encode_features parse df = for_each (\<lambda>c. if_present (encode_fun parse c) c) encoded_cols df"
proof -
  have b: "for_each (\<lambda>col. if_present (ensure_binary parse) col) binary_cols d
         = for_each (\<lambda>c. if_present (encode_fun parse c) c) binary_cols d" for d
  proof (rule for_each_cong)
    fix x s assume "x \<in> set binary_cols"
    then have "encode_fun parse x = ensure_binary parse"
      by (intro ext) (simp add: encode_fun_def)
    then show "if_present (ensure_binary parse) x s = if_present (encode_fun parse x) x s"
      by simp
  qed
  have g: "encode_fun parse ''GenHlth'' = encode_scale parse genhlth_mapping 1 5"
    "encode_fun parse ''Education'' = encode_scale parse education_mapping 1 6"
    "encode_fun parse ''Age'' = bin_feature parse age_bins age_labels 1 13"
    "encode_fun parse ''Income'' = bin_feature parse income_bins income_labels 1 8"
    "encode_fun parse ''MentHlth'' = clip_days parse"
    "encode_fun parse ''PhysHlth'' = clip_days parse"
    by (rule ext, simp add: encode_fun_def binary_cols_def)+
  show ?thesis
    unfolding encode_features_def encoded_cols_def for_each_append b
    by (simp add: g ebind_def split: sum.splits)
qed

lemma encode_fun_other: "n \<notin> set encoded_cols \<Longrightarrow> encode_fun parse n cs = Inr cs"
  by (simp add: encode_fun_def encoded_cols_def)

lemma encode_features_iff:
  assumes "distinct (columns df)"
  shows "encode_features parse df = Inr out \<longleftrightarrow>
           cols_ok (encode_fun parse) df \<and> out = apply_cols (encode_fun parse) df"
  unfolding encode_features_loop
  by (rule pass_iff[OF assms distinct_encoded_cols]) (simp_all add: encode_fun_other)

section \<open>The whole function, column by column\<close>

lemma preprocess_iff:
  assumes "distinct (columns (normalize_columns df))"
  shows "preprocess_survey_data parse df = Inr out \<longleftrightarrow>
           cols_ok impute_fun (normalize_columns df) \<and>
           cols_ok (encode_fun parse) (deduped df) \<and>
           cols_ok (final_fill parse) (encoded parse df) \<and>
           out = apply_cols (final_fill parse) (encoded parse df)"
proof -
  have d2: "distinct (columns (deduped df))" using assms by (simp add: deduped_def imputed_def)
  have d3: "distinct (columns (encoded parse df))" using d2 by (simp add: encoded_def)
  show ?thesis
    unfolding preprocess_survey_data_def ebind_Inr_iff
    using handle_missing_values_iff[OF assms] encode_features_iff[OF d2]
      ensure_data_types_iff[OF d3]
    by (auto simp: deduped_def imputed_def encoded_def)
qed

lemma cols_ok_get_col:
  "cols_ok F df \<Longrightarrow> n \<in> set (columns df) \<Longrightarrow> \<exists>v. F n (get_col df n) = Inr v"
proof -
  assume ok: "cols_ok F df" and n: "n \<in> set (columns df)"
  then obtain cs where "map_of df n = Some cs"
    using map_of_None_columns[of df n] by auto
  then have "(n, cs) \<in> set df" "get_col df n = cs" by (auto simp: get_col_def dest: map_of_SomeD)
  then have "\<not> isl (F n (get_col df n))" using ok by (auto simp: cols_ok_def list_all_iff)
  then show ?thesis by (cases "F n (get_col df n)") auto
qed

lemma columns_stages [simp]:
  "columns (imputed df) = columns (normalize_columns df)"
  "columns (deduped df) = columns (normalize_columns df)"
  "columns (encoded parse df) = columns (normalize_columns df)"
  by (simp_all add: imputed_def deduped_def encoded_def)

text \<open>What the function returns in a column, from the column after the second step.\<close>

lemma preprocess_column:
  assumes "distinct (columns (normalize_columns df))"
    and "preprocess_survey_data parse df = Inr out"
    and "n \<in> set (columns (normalize_columns df))"
  shows "\<exists>ys. encode_fun parse n (get_col (deduped df) n) = Inr ys \<and>
              final_fill parse n ys = Inr (get_col out n)"
proof -
  from preprocess_iff[OF assms(1)] assms(2)
  have ok2: "cols_ok (encode_fun parse) (deduped df)"
    and ok3: "cols_ok (final_fill parse) (encoded parse df)"
    and out: "out = apply_cols (final_fill parse) (encoded parse df)" by auto
  from cols_ok_get_col[OF ok2] assms(3)
  obtain ys where ys: "encode_fun parse n (get_col (deduped df) n) = Inr ys" by auto
  have g: "get_col (encoded parse df) n = ys"
    using ys assms(3) by (simp add: encoded_def get_col_apply_cols)
  from cols_ok_get_col[OF ok3] assms(3)
  obtain zs where zs: "final_fill parse n ys = Inr zs" using g by auto
  have "get_col out n = zs"
    using zs g assms(3) by (simp add: out get_col_apply_cols)
  then show ?thesis using ys zs by auto
qed

lemma preprocess_mid:
  assumes "distinct (columns (normalize_columns df))"
    and "preprocess_survey_data parse df = Inr out"
  shows "handle_missing_values (normalize_columns df) = Inr (imputed df)"
  using preprocess_iff[OF assms(1)] assms(2) handle_missing_values_iff[OF assms(1)]
  by (simp add: imputed_def)

lemma preprocess_absent:
  assumes "distinct (columns (normalize_columns df))"
    and "preprocess_survey_data parse df = Inr out"
    and "n \<notin> set (columns (normalize_columns df))"
  shows "get_col out n = []"
  using preprocess_iff[OF assms(1)] assms(2,3) by (simp add: get_col_absent)

section \<open>Binary columns\<close>

lemma int64_of_pos: "0 < int64_of x \<longleftrightarrow> 1 \<le> x \<and> x < 2 ^ 63"
proof -
  have a: "0 < \<lfloor>x\<rfloor> \<longleftrightarrow> 1 \<le> x" by (simp add: less_floor_iff int_one_le_iff_zero_less[symmetric] le_floor_iff)
  have b: "\<lfloor>x\<rfloor> < 2 ^ 63 \<longleftrightarrow> x < 2 ^ 63" by (simp add: floor_less_iff)
  have c: "x < 0 \<Longrightarrow> \<lceil>x\<rceil> \<le> 0" by (simp add: ceiling_le_iff)
  show ?thesis
  proof (cases "0 \<le> x")
    case True
    then show ?thesis using a b by (auto simp: int64_of_def trunc_def Let_def)
  next
    case False
    then show ?thesis using c[of ] by (auto simp: int64_of_def trunc_def Let_def)
  qed
qed

lemma ensure_binary_eq:
  "ensure_binary parse cs =
     (if list_ex (\<lambda>c. to_numeric_cell parse c = PInf \<or> to_numeric_cell parse c = NInf) cs
      then Inl ValueError
      else Inr (map (binary_value parse) cs))"
proof -
  define g where "g = (\<lambda>c. if isnull (to_numeric_cell parse c) then Num 0 else to_numeric_cell parse c)"
  have xs: "fillna (Num 0) (to_numeric_coerce parse cs) = map g cs"
    by (simp add: fillna_def to_numeric_coerce_def g_def)
  have num: "is_number (g c) \<longleftrightarrow> \<not> (to_numeric_cell parse c = PInf \<or> to_numeric_cell parse c = NInf)"
    for c
    using to_numeric_cell_not_text[of parse c]
    by (cases "to_numeric_cell parse c") (auto simp: g_def is_number_def isnull_def is_text_def)
  have all: "list_all is_number (map g cs) \<longleftrightarrow>
      \<not> list_ex (\<lambda>c. to_numeric_cell parse c = PInf \<or> to_numeric_cell parse c = NInf) cs"
    by (simp add: list_all_iff list_ex_iff num)
  have pt: "zero_or_one (case g c of Num x \<Rightarrow> Num (of_int (int64_of x)) | _ \<Rightarrow> g c)
              = binary_value parse c" if "is_number (g c)" for c
    using that unfolding num
    by (cases "to_numeric_cell parse c")
       (simp_all add: g_def binary_value_def zero_or_one_def isnull_def int64_of_pos)
  have "map zero_or_one (map (\<lambda>c. case c of Num x \<Rightarrow> Num (of_int (int64_of x)) | _ \<Rightarrow> c) (map g cs))
          = map (binary_value parse) cs" if "list_all is_number (map g cs)"
    using that by (induction cs) (simp_all add: pt)
  then show ?thesis using all by (simp add: ensure_binary_def astype_int_def xs)
qed

lemma binary_value_cases: "binary_value parse c = Num 0 \<or> binary_value parse c = Num 1"
  by (simp add: binary_value_def split: cell.splits)

lemma final_fill_numbers:
  assumes "list_all (\<lambda>c. \<not> isnull c \<and> \<not> is_text c) xs"
  shows "final_fill parse col xs = Inr xs"
proof -
  have "\<not> list_ex is_text xs" "\<not> list_ex isnull xs"
    using assms by (auto simp: list_all_iff list_ex_iff)
  then show ?thesis by (simp add: final_fill_def to_numeric_coerce_id)
qed

lemma binary_column:
  assumes "distinct (columns (normalize_columns df))"
    and "preprocess_survey_data parse df = Inr out"
    and "col \<in> set binary_cols"
  shows "get_col out col = map (binary_value parse) (get_col (deduped df) col) \<and>
         \<not> list_ex (\<lambda>c. to_numeric_cell parse c = PInf \<or> to_numeric_cell parse c = NInf)
             (get_col (deduped df) col)"
proof (cases "col \<in> set (columns (normalize_columns df))")
  case True
  from preprocess_column[OF assms(1,2) True] obtain ys where
    ys: "encode_fun parse col (get_col (deduped df) col) = Inr ys"
    and zs: "final_fill parse col ys = Inr (get_col out col)" by auto
  have e: "ys = map (binary_value parse) (get_col (deduped df) col)"
    and f: "\<not> list_ex (\<lambda>c. to_numeric_cell parse c = PInf \<or> to_numeric_cell parse c = NInf)
             (get_col (deduped df) col)"
    using ys assms(3) by (simp_all add: encode_fun_def ensure_binary_eq split: if_splits)
  have "list_all (\<lambda>c. \<not> isnull c \<and> \<not> is_text c) ys"
    unfolding e list_all_iff
  proof
    fix c assume "c \<in> set (map (binary_value parse) (get_col (deduped df) col))"
    then obtain a where "c = binary_value parse a" by auto
    then show "\<not> isnull c \<and> \<not> is_text c"
      using binary_value_cases[of parse a] by (auto simp: isnull_def is_text_def)
  qed
  from final_fill_numbers[OF this] zs e
  have "get_col out col = map (binary_value parse) (get_col (deduped df) col)" by simp
  then show ?thesis using f by blast
next
  case False
  then show ?thesis
    using preprocess_absent[OF assms(1,2) False] by (simp add: get_col_absent)
qed

section \<open>Binning\<close>

lemma age_cut:
  "cut_cell age_bins age_labels (Num x) =
     (if x < 18 then NaN else if x < 25 then Num 1 else if x < 30 then Num 2
      else if x < 35 then Num 3 else if x < 40 then Num 4 else if x < 45 then Num 5
      else if x < 50 then Num 6 else if x < 55 then Num 7 else if x < 60 then Num 8
      else if x < 65 then Num 9 else if x < 70 then Num 10 else if x < 75 then Num 11
      else if x < 80 then Num 12 else Num 13)"
  by (simp add: cut_cell_def age_bins_def age_labels_def)

lemma income_cut:
  "cut_cell income_bins income_labels (Num x) =
     (if x < 0 then NaN else if x < 10000 then Num 1 else if x < 15000 then Num 2
      else if x < 20000 then Num 3 else if x < 25000 then Num 4 else if x < 35000 then Num 5
      else if x < 50000 then Num 6 else if x < 75000 then Num 7 else Num 8)"
  by (simp add: cut_cell_def income_bins_def income_labels_def)

section \<open>Ranges of the encoded columns\<close>

lemma integral_of_int [simp]: "integral (Num (of_int k))"
  by (simp add: integral_def)

lemma between_of_int: "lo \<le> of_int k \<Longrightarrow> of_int k \<le> hi \<Longrightarrow> between lo hi (Num (of_int k))"
  by (simp add: between_def)

lemma between_Num: "between lo hi c \<Longrightarrow> \<exists>x. c = Num x \<and> lo \<le> x \<and> x \<le> hi"
  by (cases c) (simp_all add: between_def)

lemma all_between_numbers:
  "list_all (between lo hi) cs \<Longrightarrow> list_all (\<lambda>c. \<not> isnull c \<and> \<not> is_text c) cs"
  by (auto simp: list_all_iff isnull_def is_text_def dest!: between_Num)

lemma all_between_is_number: "list_all (between lo hi) cs \<Longrightarrow> list_all is_number cs"
  by (auto simp: list_all_iff is_number_def dest!: between_Num)

lemma encode_scale_range:
  assumes codes: "\<forall>k \<in> snd ` set d. lo \<le> of_int k \<and> of_int k \<le> hi \<and> - (2 ^ 63) \<le> k \<and> k < 2 ^ 63"
    and ret: "encode_scale parse d lo hi cs = Inr ys"
  shows "list_all (between lo hi) ys \<and>
         (if numeric_dtype cs \<and> list_all (between lo hi) cs then ys = cs
          else list_all integral ys)"
proof (cases "numeric_dtype cs \<and> list_all (between lo hi) cs")
  case True
  have "clip lo hi cs = Inr cs"
    by (rule clip_codes) (use True in \<open>auto simp: list_all_iff dest!: between_Num\<close>)
  then have "ys = cs" using ret True by (simp add: encode_scale_def)
  then show ?thesis using True by simp
next
  case False
  from encode_scale_remap[OF False codes, of parse] ret
  obtain m where m: "mode0 (series_map d cs) = Inr m" and ys: "ys = fillna m (series_map d cs)"
    by (auto split: sum.splits)
  from mode0_Inr[OF m] have mm: "m \<in> set (series_map d cs)" "m \<noteq> NaN" by auto
  have "between lo hi c \<and> integral c" if "c \<in> set ys" for c
  proof -
    from that have "c = m \<or> (c \<in> set (series_map d cs) \<and> c \<noteq> NaN)"
      using set_fillna_subset[of m "series_map d cs"] by (auto simp: ys)
    then obtain k where "k \<in> snd ` set d" "c = Num (of_int k)"
      using mm series_map_cells by blast
    then show ?thesis using codes by (auto intro: between_of_int)
  qed
  then show ?thesis using False by (auto simp: list_all_iff)
qed

lemma age_cut_cell:
  "cut_cell age_bins age_labels c = NaN \<or>
   (between 1 13 (cut_cell age_bins age_labels c) \<and> integral (cut_cell age_bins age_labels c))"
proof (cases c)
  case (Num x)
  show ?thesis unfolding Num age_cut by (simp add: between_def integral_def)
qed (simp_all add: cut_cell_def)

lemma income_cut_cell:
  "cut_cell income_bins income_labels c = NaN \<or>
   (between 1 8 (cut_cell income_bins income_labels c) \<and> integral (cut_cell income_bins income_labels c))"
proof (cases c)
  case (Num x)
  show ?thesis unfolding Num income_cut by (simp add: between_def integral_def)
qed (simp_all add: cut_cell_def)

text \<open>A binned column: the column was passed through, or every cell is missing or a label.\<close>

lemma bin_feature_cells:
  assumes cells: "\<And>c. cut_cell bins labels c = NaN \<or> P (cut_cell bins labels c)"
    and ret: "bin_feature parse bins labels lo hi cs = Inr ys"
  shows "(\<not> list_ex is_text ys) \<and>
         (if numeric_dtype cs \<and> list_all (between lo hi) cs then ys = cs
          else list_all (\<lambda>c. c = NaN \<or> P c) ys)"
proof (cases "numeric_dtype cs \<and> list_all (between lo hi) cs")
  case True
  then have nt: "\<not> list_ex is_text cs" by (simp add: numeric_dtype_def)
  have "ys = cs" using ret True to_numeric_id[OF nt] by (simp add: bin_feature_def)
  then show ?thesis using True nt by simp
next
  case False
  from ret False obtain xs where ys: "ys = cut bins labels xs"
    by (auto simp: bin_feature_def ebind_Inr_iff to_numeric_id)
  have "list_all (\<lambda>c. c = NaN \<or> P c) ys"
    unfolding ys cut_def list_all_iff using cells by auto
  then show ?thesis using ys False by auto
qed

lemma final_fill_coded_cells:
  assumes nt: "\<not> list_ex is_text ys"
    and col: "col \<in> set binary_cols \<or> col \<in> set [''GenHlth'', ''Age'', ''Education'', ''Income'']"
    and cells: "list_all (\<lambda>c. c = NaN \<or> P c) ys"
    and ret: "final_fill parse col ys = Inr zs"
  shows "list_all P zs"
proof (cases "list_ex isnull ys")
  case True
  then have ne: "ys \<noteq> []" by auto
  from ret final_fill_coded[OF nt ne col, of parse]
  obtain m where m: "mode0 ys = Inr m" and zs: "zs = fillna m ys"
    by (auto split: sum.splits)
  from mode0_Inr[OF m] cells have "P m" by (auto simp: list_all_iff)
  then show ?thesis
    using cells set_fillna_subset[of m ys] by (auto simp: zs list_all_iff)
next
  case False
  then have "zs = ys" using ret nt by (simp add: final_fill_def to_numeric_coerce_id)
  then show ?thesis using False cells by (auto simp: list_all_iff list_ex_iff isnull_def)
qed

lemma trunc_range: "0 \<le> x \<Longrightarrow> x \<le> of_int n \<Longrightarrow> 0 \<le> trunc x \<and> trunc x \<le> n"
proof -
  assume a: "0 \<le> x" "x \<le> of_int n"
  have "\<lfloor>x\<rfloor> \<le> n" using floor_mono[OF a(2)] by simp
  moreover have "0 \<le> \<lfloor>x\<rfloor>" using a(1) by simp
  ultimately show ?thesis using a(1) by (simp add: trunc_def)
qed

lemma clip_days_cells:
  assumes "clip_days parse cs = Inr ys"
  shows "list_all (\<lambda>c. between 0 30 c \<and> integral c) ys"
proof -
  from assms obtain m xs where
    xs: "clip 0 30 (fillna m (to_numeric_coerce parse cs)) = Inr xs" and ys: "astype_int xs = Inr ys"
    by (auto simp: clip_days_def ebind_Inr_iff)
  define ws where "ws = fillna m (to_numeric_coerce parse cs)"
  have xs': "xs = map (clip_cell 0 30) ws" using xs by (auto simp: clip_def ws_def split: if_splits)
  have ok: "list_all is_number xs"
    and ys': "ys = map (\<lambda>c. case c of Num x \<Rightarrow> Num (of_int (int64_of x)) | _ \<Rightarrow> c) xs"
    using ys by (auto simp: astype_int_def split: if_splits)
  have "between 0 30 c \<and> integral c" if "c \<in> set ys" for c
  proof -
    from that obtain b where b: "b \<in> set xs"
      "c = (case b of Num x \<Rightarrow> Num (of_int (int64_of x)) | _ \<Rightarrow> b)" by (auto simp: ys')
    from b(1) ok have "is_number b" by (simp add: list_all_iff)
    then obtain x where x: "b = Num x"
      by (cases b) (auto simp: is_number_def)
    from b(1) obtain w where w: "b = clip_cell 0 30 w" by (auto simp: xs')
    have "0 \<le> x \<and> x \<le> 30"
      by (cases w) (use w x in \<open>auto simp: clip_cell_def\<close>)
    then have r: "0 \<le> x" "x \<le> of_int 30" by simp_all
    from trunc_range[OF r] have t: "0 \<le> trunc x" "trunc x \<le> 30" by simp_all
    then have "int64_of x = trunc x" by (simp add: int64_of_def)
    then show ?thesis using b(2) x t by (simp add: between_def)
  qed
  then show ?thesis by (simp add: list_all_iff)
qed

text \<open>
  An ordinal column of the output, from the column after the second step: inside its
  range; the same column when that one was numeric and inside the range, integers
  otherwise.
\<close>

lemma scale_out:
  assumes codes: "\<forall>k \<in> snd ` set d. lo \<le> of_int k \<and> of_int k \<le> hi \<and> - (2 ^ 63) \<le> k \<and> k < 2 ^ 63"
    and enc: "encode_scale parse d lo hi cs = Inr ys"
    and fin: "final_fill parse col ys = Inr zs"
  shows "list_all (between lo hi) zs \<and>
         (if numeric_dtype cs \<and> list_all (between lo hi) cs then zs = cs
          else list_all integral zs)"
proof -
  from encode_scale_range[OF codes enc]
  have r: "list_all (between lo hi) ys"
    and i: "if numeric_dtype cs \<and> list_all (between lo hi) cs then ys = cs
            else list_all integral ys" by simp_all
  from final_fill_numbers[OF all_between_numbers[OF r], of parse col] fin
  have "zs = ys" by simp
  then show ?thesis using r i by simp
qed

lemma binned_out:
  assumes cells: "\<And>c. cut_cell bins labels c = NaN \<or>
                     (between lo hi (cut_cell bins labels c) \<and> integral (cut_cell bins labels c))"
    and col: "col \<in> set binary_cols \<or> col \<in> set [''GenHlth'', ''Age'', ''Education'', ''Income'']"
    and enc: "bin_feature parse bins labels lo hi cs = Inr ys"
    and fin: "final_fill parse col ys = Inr zs"
  shows "list_all (between lo hi) zs \<and>
         (if numeric_dtype cs \<and> list_all (between lo hi) cs then zs = cs
          else list_all integral zs)"
proof (cases "numeric_dtype cs \<and> list_all (between lo hi) cs")
  case True
  from bin_feature_cells[where P = "\<lambda>c. between lo hi c \<and> integral c", OF cells enc] True
  have ys: "ys = cs" by simp
  have "list_all (between lo hi) ys" using True ys by simp
  from final_fill_numbers[OF all_between_numbers[OF this], of parse col] fin
  have "zs = cs" using ys by simp
  then show ?thesis using True by simp
next
  case False
  from bin_feature_cells[where P = "\<lambda>c. between lo hi c \<and> integral c", OF cells enc] False
  have nt: "\<not> list_ex is_text ys"
    and all: "list_all (\<lambda>c. c = NaN \<or> between lo hi c \<and> integral c) ys" by simp_all
  from final_fill_coded_cells[OF nt col all fin]
  have "list_all (\<lambda>c. between lo hi c \<and> integral c) zs" .
  then show ?thesis using False by (auto simp: list_all_iff)
qed

lemma days_out:
  assumes enc: "clip_days parse cs = Inr ys"
    and fin: "final_fill parse col ys = Inr zs"
  shows "list_all (\<lambda>c. between 0 30 c \<and> integral c) zs"
proof -
  from clip_days_cells[OF enc] have r: "list_all (\<lambda>c. between 0 30 c \<and> integral c) ys" .
  then have "list_all (between 0 30) ys" by (simp add: list_all_iff)
  from final_fill_numbers[OF all_between_numbers[OF this], of parse col] fin
  have "zs = ys" by simp
  then show ?thesis using r by simp
qed

section \<open>Duplicate rows\<close>

lemma length_duplicated [simp]: "length (duplicated seen rs) = length rs"
  by (induction rs arbitrary: seen) simp_all

lemma duplicated_nth:
  "i < length rs \<Longrightarrow>
     duplicated seen rs ! i \<longleftrightarrow> rs ! i \<in> set seen \<or> (\<exists>j<i. rs ! j = rs ! i)"
proof (induction rs arbitrary: seen i)
  case Nil
  then show ?case by simp
next
  case (Cons r rs)
  show ?case
  proof (cases i)
    case 0
    then show ?thesis by simp
  next
    case (Suc k)
    then have k: "k < length rs" using Cons.prems by simp
    have "(\<exists>j<Suc k. (r # rs) ! j = rs ! k) \<longleftrightarrow> (r = rs ! k \<or> (\<exists>j<k. rs ! j = rs ! k))"
      by (auto simp: less_Suc_eq_0_disj)
    then show ?thesis using Cons.IH[OF k, of "r # seen"] Suc by auto
  qed
qed

lemma select_Cons: "select (k # keep) (x # xs) = (if k then [x] else []) @ select keep xs"
  by (simp add: select_def)

lemma upt_0_Suc: "[0..<Suc n] = 0 # map Suc [0..<n]"
  by (simp add: upt_conv_Cons map_Suc_upt del: upt_Suc)

lemma select_nth:
  "length xs = length keep \<Longrightarrow>
     select keep xs = map (nth xs) (filter (nth keep) [0..<length keep])"
proof (induction xs keep rule: list_induct2)
  case Nil
  then show ?case by (simp add: select_def)
next
  case (Cons x xs k keep)
  have "filter (nth (k # keep)) [0..<Suc (length keep)]
          = (if k then [0] else []) @ map Suc (filter (nth keep) [0..<length keep])"
    unfolding upt_0_Suc by (simp add: filter_map comp_def)
  then show ?case using Cons by (simp add: select_Cons comp_def del: upt_Suc)
qed

lemma length_rows [simp]: "length (rows df) = nrows df"
  by (simp add: rows_def)

lemma nth_rows: "i < nrows df \<Longrightarrow> rows df ! i = row df i"
  by (simp add: rows_def)

lemma keep_survivors:
  "filter (nth (map Not (duplicated [] (rows df)))) [0..<nrows df] = survivors df"
  unfolding survivors_def
proof (rule filter_cong[OF refl])
  fix i assume "i \<in> set [0..<nrows df]"
  then have i: "i < nrows df" by simp
  have "duplicated [] (rows df) ! i \<longleftrightarrow> (\<exists>j<i. row df j = row df i)"
    using duplicated_nth[of i "rows df" "[]"] i by (auto simp: nth_rows)
  then show "map Not (duplicated [] (rows df)) ! i = (\<not> list_ex (\<lambda>j. row df j = row df i) [0..<i])"
    using i by (auto simp: list_ex_iff)
qed

lemma select_survivors:
  assumes "length cs = nrows df"
  shows "select (map Not (duplicated [] (rows df))) cs = map (nth cs) (survivors df)"
  using select_nth[of cs "map Not (duplicated [] (rows df))"] assms keep_survivors[of df]
  by simp

lemma rectangular_mem: "rectangular df \<Longrightarrow> (n, cs) \<in> set df \<Longrightarrow> length cs = nrows df"
  by (auto simp: rectangular_def list_all_iff)

lemma drop_duplicates_survivors:
  assumes "rectangular df"
  shows "drop_duplicates df = map (\<lambda>(n, cs). (n, map (nth cs) (survivors df))) df"
  unfolding drop_duplicates_def Let_def
  by (rule map_cong) (use assms in \<open>auto simp: select_survivors dest: rectangular_mem\<close>)

lemma nrows_drop_duplicates:
  assumes "rectangular df"
  shows "nrows (drop_duplicates df) = length (survivors df)"
proof (cases df)
  case Nil
  then show ?thesis by (simp add: drop_duplicates_def nrows_def survivors_def)
next
  case (Cons a list)
  then show ?thesis
    unfolding drop_duplicates_survivors[OF assms] by (cases a) (simp add: nrows_def)
qed

lemma row_drop_duplicates:
  assumes "rectangular df" "k < length (survivors df)"
  shows "row (drop_duplicates df) k = row df (survivors df ! k)"
  unfolding drop_duplicates_survivors[OF assms(1)] row_def map_map
  by (rule map_cong) (use assms(2) in auto)

lemma rows_drop_duplicates:
  assumes "rectangular df"
  shows "rows (drop_duplicates df) = map (row df) (survivors df)"
proof (rule nth_equalityI)
  show "length (rows (drop_duplicates df)) = length (map (row df) (survivors df))"
    using nrows_drop_duplicates[OF assms] by simp
next
  fix i assume "i < length (rows (drop_duplicates df))"
  then have i: "i < length (survivors df)" using nrows_drop_duplicates[OF assms] by simp
  then show "rows (drop_duplicates df) ! i = map (row df) (survivors df) ! i"
    using row_drop_duplicates[OF assms i] nrows_drop_duplicates[OF assms]
    by (simp add: nth_rows)
qed

lemma survivors_props:
  "distinct (survivors df)" "set (survivors df) \<subseteq> {0..<nrows df}"
  "i \<in> set (survivors df) \<Longrightarrow> j < i \<Longrightarrow> row df j \<noteq> row df i"
  by (auto simp: survivors_def list_ex_iff)

lemma distinct_rows_drop_duplicates:
  assumes "rectangular df"
  shows "distinct (rows (drop_duplicates df))"
proof -
  have "inj_on (row df) (set (survivors df))"
  proof (rule inj_onI)
    fix i j assume a: "i \<in> set (survivors df)" "j \<in> set (survivors df)" "row df i = row df j"
    show "i = j"
    proof (rule ccontr)
      assume "i \<noteq> j"
      then consider "i < j" | "j < i" by linarith
      then show False using survivors_props(3)[of j df i] survivors_props(3)[of i df j] a
        by cases auto
    qed
  qed
  then show ?thesis
    unfolding rows_drop_duplicates[OF assms] by (simp add: distinct_map survivors_props(1))
qed

lemma first_occurrence:
  assumes "i < nrows df"
  shows "\<exists>j \<in> set (survivors df). j \<le> i \<and> row df j = row df i"
proof -
  define j where "j = (LEAST j. row df j = row df i)"
  have e: "row df j = row df i" unfolding j_def by (rule LeastI[of _ i]) simp
  have le: "j \<le> i" unfolding j_def by (rule Least_le) simp
  have "row df k \<noteq> row df j" if "k < j" for k
    using not_less_Least[of k "\<lambda>j. row df j = row df i"] that e by (auto simp: j_def)
  then have "j \<in> set (survivors df)"
    using le assms by (auto simp: survivors_def list_ex_iff)
  then show ?thesis using e le by auto
qed

lemma set_rows_drop_duplicates:
  assumes "rectangular df"
  shows "set (rows (drop_duplicates df)) = set (rows df)"
proof
  show "set (rows (drop_duplicates df)) \<subseteq> set (rows df)"
    unfolding rows_drop_duplicates[OF assms] using survivors_props(2)[of df]
    by (auto simp: rows_def)
next
  show "set (rows df) \<subseteq> set (rows (drop_duplicates df))"
  proof
    fix r assume "r \<in> set (rows df)"
    then obtain i where i: "i < nrows df" "r = row df i" by (auto simp: rows_def)
    from first_occurrence[OF i(1)] obtain j where "j \<in> set (survivors df)" "row df j = r"
      using i(2) by auto
    then show "r \<in> set (rows (drop_duplicates df))"
      unfolding rows_drop_duplicates[OF assms] by auto
  qed
qed

lemma filter_less_upt: "m \<le> n \<Longrightarrow> filter (\<lambda>i. i < m) [0..<n] = [0..<m]"
  by (induction n) (auto simp: le_Suc_eq)

lemma appended_duplicates:
  assumes rect: "rectangular df"
    and rows: "rows df = rs @ ds" and dist: "distinct rs" and dup: "set ds \<subseteq> set rs"
  shows "rows (drop_duplicates df) = rs"
    and "nrows (drop_duplicates df) = nrows df - length ds"
proof -
  have n: "nrows df = length rs + length ds" using rows length_rows[of df] by simp
  have r: "row df i = (rs @ ds) ! i" if "i < nrows df" for i
    using nth_rows[OF that] rows by simp
  have s: "survivors df = filter (\<lambda>i. i < length rs) [0..<nrows df]"
    unfolding survivors_def
  proof (rule filter_cong[OF refl])
    fix i assume "i \<in> set [0..<nrows df]"
    then have i: "i < nrows df" by simp
    show "(\<not> list_ex (\<lambda>j. row df j = row df i) [0..<i]) = (i < length rs)"
    proof (cases "i < length rs")
      case True
      have "row df j \<noteq> row df i" if "j < i" for j
      proof -
        have "rs ! j \<noteq> rs ! i" using dist that True by (simp add: nth_eq_iff_index_eq)
        then show ?thesis using r[of j] r[of i] that True i by (simp add: nth_append)
      qed
      then show ?thesis using True by (auto simp: list_ex_iff)
    next
      case False
      then have "row df i \<in> set ds" using r[OF i] i n by (simp add: nth_append)
      then have "row df i \<in> set rs" using dup by auto
      then obtain j where j: "j < length rs" "rs ! j = row df i" by (auto simp: in_set_conv_nth)
      then have "row df j = row df i" "j < i" using r[of j] n False by (auto simp: nth_append)
      then show ?thesis using False by (auto simp: list_ex_iff)
    qed
  qed
  have s': "survivors df = [0..<length rs]" unfolding s using n by (simp add: filter_less_upt)
  have "map (row df) [0..<length rs] = rs"
    by (rule nth_equalityI) (use r n in \<open>auto simp: nth_append\<close>)
  then show "rows (drop_duplicates df) = rs"
    unfolding rows_drop_duplicates[OF rect] s' .
  show "nrows (drop_duplicates df) = nrows df - length ds"
    using nrows_drop_duplicates[OF rect] s' n by simp
qed

section \<open>Shape of the table\<close>

lemma length_astype_int: "astype_int cs = Inr ys \<Longrightarrow> length ys = length cs"
  by (auto simp: astype_int_def split: if_splits)

lemma length_clip: "clip lo hi cs = Inr ys \<Longrightarrow> length ys = length cs"
  by (auto simp: clip_def split: if_splits)

lemma length_to_numeric: "to_numeric parse cs = Inr ys \<Longrightarrow> length ys = length cs"
  by (auto simp: to_numeric_def split: if_splits)

lemma length_series_map [simp]: "length (series_map d cs) = length cs"
  by (simp add: series_map_def)

lemma length_fill_median: "fill_median cs = Inr ys \<Longrightarrow> length ys = length cs"
  by (auto simp: fill_median_def ebind_Inr_iff)

lemma length_fill_mode: "fill_mode cs = Inr ys \<Longrightarrow> length ys = length cs"
  by (auto simp: fill_mode_def ebind_Inr_iff)

lemma length_impute_fun: "impute_fun n cs = Inr ys \<Longrightarrow> length ys = length cs"
  by (auto simp: impute_fun_def split: if_splits dest: length_fill_median length_fill_mode)

lemma length_encode_scale: "encode_scale parse d lo hi cs = Inr ys \<Longrightarrow> length ys = length cs"
  by (auto simp: encode_scale_def ebind_Inr_iff Let_def split: if_splits
      dest!: length_astype_int length_clip)

lemma length_fill_before_cut: "fill_before_cut labels xs = Inr ys \<Longrightarrow> length ys = length xs"
  by (auto simp: fill_before_cut_def ebind_Inr_iff)

lemma length_bin_feature:
  "bin_feature parse bins labels lo hi cs = Inr ys \<Longrightarrow> length ys = length cs"
  by (auto simp: bin_feature_def ebind_Inr_iff split: if_splits
      dest!: length_to_numeric length_fill_before_cut)

lemma length_clip_days: "clip_days parse cs = Inr ys \<Longrightarrow> length ys = length cs"
  by (auto simp: clip_days_def ebind_Inr_iff dest!: length_astype_int length_clip)

lemma length_encode_fun: "encode_fun parse n cs = Inr ys \<Longrightarrow> length ys = length cs"
  by (auto simp: encode_fun_def ensure_binary_eq split: if_splits
      dest: length_encode_scale length_bin_feature length_clip_days)

lemma length_final_fill: "final_fill parse n cs = Inr ys \<Longrightarrow> length ys = length cs"
  by (auto simp: final_fill_def Let_def split: if_splits
      dest!: length_fill_median length_fill_mode)

lemma apply_cols_shape:
  assumes ok: "cols_ok F df"
    and len: "\<And>n cs ys. F n cs = Inr ys \<Longrightarrow> length ys = length cs"
  shows "nrows (apply_cols F df) = nrows df"
    and "rectangular df \<Longrightarrow> rectangular (apply_cols F df)"
proof -
  have l: "length (projr (F n cs)) = length cs" if "(n, cs) \<in> set df" for n cs
  proof -
    from ok that have "\<not> isl (F n cs)" by (auto simp: cols_ok_def list_all_iff)
    then obtain ys where "F n cs = Inr ys" by (cases "F n cs") auto
    then show ?thesis using len by auto
  qed
  show n: "nrows (apply_cols F df) = nrows df"
  proof (cases df)
    case Nil
    then show ?thesis by (simp add: apply_cols_def)
  next
    case (Cons a list)
    obtain n cs where a: "a = (n, cs)" by (cases a)
    then show ?thesis using l[of n cs] Cons by (simp add: apply_cols_def nrows_def)
  qed
  show "rectangular (apply_cols F df)" if "rectangular df"
    using that l unfolding rectangular_def n by (auto simp: apply_cols_def list_all_iff)
qed

lemma normalize_shape [simp]:
  "nrows (normalize_columns df) = nrows df"
  "rectangular (normalize_columns df) = rectangular df"
proof -
  show n: "nrows (normalize_columns df) = nrows df"
    by (cases df) (auto simp: normalize_columns_def nrows_def)
  show "rectangular (normalize_columns df) = rectangular df"
    unfolding rectangular_def n by (auto simp: normalize_columns_def list_all_iff)
qed

lemma length_select_le: "length (select keep xs) \<le> length xs"
proof -
  have "length (select keep xs) \<le> length (zip xs keep)"
    unfolding select_def length_map by (rule length_filter_le)
  also have "\<dots> \<le> length xs" by simp
  finally show ?thesis .
qed

lemma nrows_drop_duplicates_le: "nrows (drop_duplicates df) \<le> nrows df"
proof (cases df)
  case Nil
  then show ?thesis by (simp add: drop_duplicates_def)
next
  case (Cons a list)
  obtain n cs where "a = (n, cs)" by (cases a)
  then show ?thesis using Cons length_select_le by (simp add: drop_duplicates_def nrows_def Let_def)
qed

lemma preprocess_shape:
  assumes "distinct (columns (normalize_columns df))"
    and "preprocess_survey_data parse df = Inr out"
  shows "nrows out = nrows (deduped df)" and "nrows (imputed df) = nrows df"
    and "rectangular df \<Longrightarrow> rectangular (imputed df)"
proof -
  from preprocess_iff[OF assms(1)] assms(2)
  have ok1: "cols_ok impute_fun (normalize_columns df)"
    and ok2: "cols_ok (encode_fun parse) (deduped df)"
    and ok3: "cols_ok (final_fill parse) (encoded parse df)"
    and out: "out = apply_cols (final_fill parse) (encoded parse df)" by auto
  show "nrows out = nrows (deduped df)"
    unfolding out using apply_cols_shape(1)[OF ok3 length_final_fill]
      apply_cols_shape(1)[OF ok2 length_encode_fun] by (simp add: encoded_def)
  show "nrows (imputed df) = nrows df"
    using apply_cols_shape(1)[OF ok1 length_impute_fun] by (simp add: imputed_def)
  show "rectangular (imputed df)" if "rectangular df"
    using apply_cols_shape(2)[OF ok1 length_impute_fun] that by (simp add: imputed_def)
qed

section \<open>Clean tables\<close>

subsection \<open>The header normalisation is idempotent\<close>

lemma dropWhile_id: "xs = [] \<or> \<not> P (hd xs) \<Longrightarrow> dropWhile P xs = xs"
  by (cases xs) auto

lemma strip_ends:
  "strip s = [] \<or> (\<not> is_space (hd (strip s)) \<and> \<not> is_space (last (strip s)))"
proof (cases "strip s = []")
  case True
  then show ?thesis by simp
next
  case False
  define a where "a = dropWhile is_space s"
  define b where "b = dropWhile is_space (rev a)"
  have s: "strip s = rev b" by (simp add: strip_def a_def b_def)
  have bne: "b \<noteq> []" using False s by simp
  then have hb: "\<not> is_space (hd b)" unfolding b_def by (rule hd_dropWhile)
  have ane: "a \<noteq> []" using bne by (auto simp: b_def)
  then have ha: "\<not> is_space (hd a)" unfolding a_def by (rule hd_dropWhile)
  have "last b = last (rev a)"
    using bne unfolding b_def by (metis last_appendR takeWhile_dropWhile_id)
  then have "last b = hd a" using ane by (simp add: last_rev)
  then show ?thesis using s bne hb ha by (simp add: hd_rev last_rev)
qed

lemma strip_fixed:
  assumes "t = [] \<or> (\<not> is_space (hd t) \<and> \<not> is_space (last t))"
  shows "strip t = t"
proof (cases "t = []")
  case True
  then show ?thesis by (simp add: strip_def)
next
  case False
  then have h: "\<not> is_space (hd t)" "\<not> is_space (last t)" using assms by auto
  have 1: "dropWhile is_space t = t" using h(1) by (simp add: dropWhile_id)
  have "\<not> is_space (hd (rev t))" using h(2) False by (simp add: hd_rev)
  then have 2: "dropWhile is_space (rev t) = rev t" by (simp add: dropWhile_id)
  show ?thesis by (simp add: strip_def 1 2)
qed

lemma space_is_space: "is_space (CHR '' '')"
  by (simp add: is_space_def)

lemma underscore_no_space: "\<not> is_space (CHR ''_'')"
  by (simp add: is_space_def)

lemma normalize_name_idem:
  "replace_spaces (strip (replace_spaces (strip n))) = replace_spaces (strip n)"
proof -
  define s where "s = strip n"
  define t where "t = replace_spaces s"
  have ends: "s = [] \<or> (\<not> is_space (hd s) \<and> \<not> is_space (last s))"
    unfolding s_def by (rule strip_ends)
  have r: "\<not> is_space c \<Longrightarrow> \<not> is_space (if c = CHR '' '' then CHR ''_'' else c)" for c
    by (simp add: underscore_no_space)
  have "t = [] \<or> (\<not> is_space (hd t) \<and> \<not> is_space (last t))"
  proof (cases "s = []")
    case True
    then show ?thesis by (simp add: t_def replace_spaces_def)
  next
    case False
    then have "\<not> is_space (hd s)" "\<not> is_space (last s)" using ends by auto
    then show ?thesis using False r
      by (simp add: t_def replace_spaces_def hd_map last_map)
  qed
  then have 1: "strip t = t" by (rule strip_fixed)
  have 2: "replace_spaces t = t"
    unfolding t_def replace_spaces_def by (induction s) auto
  show ?thesis using 1 2 by (simp add: s_def t_def)
qed

lemma normalize_columns_idem: "normalize_columns (normalize_columns df) = normalize_columns df"
  by (induction df) (auto simp: normalize_columns_def normalize_name_idem)

lemma preprocess_normalized:
  "preprocess_survey_data parse (normalize_columns df) = preprocess_survey_data parse df"
  by (simp add: preprocess_survey_data_def normalize_columns_idem)

subsection \<open>A clean table is a fixed point\<close>

lemma apply_cols_id:
  assumes "\<And>n cs. (n, cs) \<in> set df \<Longrightarrow> F n cs = Inr cs"
  shows "apply_cols F df = df" and "cols_ok F df"
proof -
  have "map (\<lambda>(n, cs). (n, projr (F n cs))) df = map (\<lambda>x. x) df"
    by (rule map_cong) (use assms in auto)
  then show "apply_cols F df = df" by (simp add: apply_cols_def)
  show "cols_ok F df" using assms by (auto simp: cols_ok_def list_all_iff)
qed

lemma survivors_distinct_rows:
  assumes "distinct (rows df)"
  shows "survivors df = [0..<nrows df]"
proof -
  have "\<not> list_ex (\<lambda>j. row df j = row df i) [0..<i]" if "i < nrows df" for i
  proof -
    have "row df j \<noteq> row df i" if "j < i" for j
    proof -
      have j: "j < nrows df" using that \<open>i < nrows df\<close> by simp
      have "rows df ! j \<noteq> rows df ! i"
        using assms that j \<open>i < nrows df\<close> by (simp add: nth_eq_iff_index_eq)
      then show ?thesis using nth_rows[OF j] nth_rows[OF \<open>i < nrows df\<close>] by simp
    qed
    then show ?thesis by (auto simp: list_ex_iff)
  qed
  then have "filter (\<lambda>i. \<not> list_ex (\<lambda>j. row df j = row df i) [0..<i]) [0..<nrows df]
               = filter (\<lambda>i. True) [0..<nrows df]"
    by (intro filter_cong) auto
  then show ?thesis by (simp add: survivors_def)
qed

lemma drop_duplicates_id:
  assumes "rectangular df" "distinct (rows df)"
  shows "drop_duplicates df = df"
proof -
  have "map (\<lambda>(n, cs). (n, map (nth cs) (survivors df))) df = map (\<lambda>x. x) df"
  proof (rule map_cong)
    fix x assume x: "x \<in> set df"
    obtain n cs where nc: "x = (n, cs)" by (cases x)
    have "length cs = nrows df" using rectangular_mem[OF assms(1)] x nc by auto
    then have "map (nth cs) (survivors df) = cs"
      using survivors_distinct_rows[OF assms(2)] map_nth[of cs] by simp
    then show "(\<lambda>(n, cs). (n, map (nth cs) (survivors df))) x = x" using nc by simp
  qed simp
  then show ?thesis using drop_duplicates_survivors[OF assms(1)] by simp
qed

lemma rows_normalize [simp]: "rows (normalize_columns df) = rows df"
proof -
  have "row (normalize_columns df) i = row df i" for i
    by (simp add: row_def normalize_columns_def case_prod_unfold comp_def)
  then show ?thesis by (simp add: rows_def)
qed

lemma clean_col_numbers: "clean_col n cs \<Longrightarrow> list_all (\<lambda>c. \<not> isnull c \<and> \<not> is_text c) cs"
  by (simp add: clean_col_def)

lemma numbers_no_text: "list_all (\<lambda>c. \<not> isnull c \<and> \<not> is_text c) cs \<Longrightarrow> \<not> list_ex is_text cs"
  by (auto simp: list_all_iff list_ex_iff)

lemma numbers_no_null: "list_all (\<lambda>c. \<not> isnull c \<and> \<not> is_text c) cs \<Longrightarrow> \<not> list_ex isnull cs"
  by (auto simp: list_all_iff list_ex_iff)

lemma impute_fun_clean:
  assumes "clean_col n cs"
  shows "impute_fun n cs = Inr ys \<Longrightarrow> ys = cs" and "cs \<noteq> [] \<Longrightarrow> impute_fun n cs = Inr cs"
proof -
  note num = clean_col_numbers[OF assms]
  note nt = numbers_no_text[OF num] and nn = numbers_no_null[OF num]
  show "ys = cs" if "impute_fun n cs = Inr ys"
    using that nn
    by (auto simp: impute_fun_def fill_median_def fill_mode_def ebind_Inr_iff fillna_id
        split: if_splits)
  show "impute_fun n cs = Inr cs" if "cs \<noteq> []"
  proof -
    from mode0_ok[OF no_null_not_all_null[OF that nn]] obtain m where "mode0 cs = Inr m" ..
    then show ?thesis using nt nn
      by (simp add: impute_fun_def fill_median_def fill_mode_def median_no_text fillna_id)
  qed
qed

lemma binary_value_fixed: "c = Num 0 \<or> c = Num 1 \<Longrightarrow> binary_value parse c = c"
  by (auto simp: binary_value_def to_numeric_cell_def)

lemma all_between_pass:
  assumes b: "list_all (between lo hi) cs"
  shows "encode_scale parse d lo hi cs = Inr cs"
    and "bin_feature parse bins labels lo hi cs = Inr cs"
proof -
  note num = all_between_numbers[OF b]
  note nt = numbers_no_text[OF num]
  have c: "clip lo hi cs = Inr cs"
    by (rule clip_codes) (use b in \<open>auto simp: list_all_iff dest!: between_Num\<close>)
  show "encode_scale parse d lo hi cs = Inr cs"
    using b nt c by (simp add: encode_scale_def numeric_dtype_def)
  show "bin_feature parse bins labels lo hi cs = Inr cs"
    using b nt by (simp add: bin_feature_def numeric_dtype_def to_numeric_id)
qed

lemma pass_through_scale:
  assumes "list_all (\<lambda>c. between lo hi c \<and> integral c) cs"
  shows "encode_scale parse d lo hi cs = Inr cs"
    and "bin_feature parse bins labels lo hi cs = Inr cs"
proof -
  have b: "list_all (between lo hi) cs" using assms by (simp add: list_all_iff)
  show "encode_scale parse d lo hi cs = Inr cs" using all_between_pass(1)[OF b] .
  show "bin_feature parse bins labels lo hi cs = Inr cs" using all_between_pass(2)[OF b] .
qed

lemma integral_int64:
  assumes "between 0 30 (Num x)" "integral (Num x)"
  shows "Num (of_int (int64_of x)) = Num x"
proof -
  from assms have r: "0 \<le> x" "x \<le> of_int 30" and i: "x = of_int \<lfloor>x\<rfloor>"
    by (simp_all add: between_def integral_def)
  from trunc_range[OF r] have "int64_of x = trunc x" by (simp add: int64_of_def)
  moreover have "trunc x = \<lfloor>x\<rfloor>" using r(1) by (simp add: trunc_def)
  ultimately show ?thesis using i by simp
qed

lemma clip_days_clean:
  assumes "list_all (\<lambda>c. between 0 30 c \<and> integral c) cs"
  shows "clip_days parse cs = Inr cs"
proof -
  have b: "list_all (between 0 30) cs" using assms by (simp add: list_all_iff)
  note num = all_between_numbers[OF b]
  note nt = numbers_no_text[OF num] and nn = numbers_no_null[OF num]
  have c: "clip 0 30 cs = Inr cs"
    by (rule clip_codes) (use b in \<open>auto simp: list_all_iff dest!: between_Num\<close>)
  have "map (\<lambda>c. case c of Num x \<Rightarrow> Num (of_int (int64_of x)) | _ \<Rightarrow> c) cs = map (\<lambda>c. c) cs"
  proof (rule map_cong)
    fix c assume "c \<in> set cs"
    then have "between 0 30 c" "integral c" using assms by (auto simp: list_all_iff)
    then show "(case c of Num x \<Rightarrow> Num (of_int (int64_of x)) | _ \<Rightarrow> c) = c"
      by (cases c) (auto simp: integral_int64)
  qed simp
  then have a: "astype_int cs = Inr cs"
    using all_between_is_number[OF b] by (simp add: astype_int_def)
  show ?thesis using nt nn c a
    by (simp add: clip_days_def median_no_text fillna_id to_numeric_coerce_id)
qed

lemma ensure_binary_clean:
  assumes "list_all (\<lambda>c. c = Num 0 \<or> c = Num 1) cs"
  shows "ensure_binary parse cs = Inr cs"
proof -
  have "map (binary_value parse) cs = map (\<lambda>c. c) cs"
    by (rule map_cong) (use assms in \<open>auto simp: list_all_iff binary_value_fixed\<close>)
  then have bin: "map (binary_value parse) cs = cs" by simp
  have "to_numeric_cell parse c = c" if "c \<in> set cs" for c
    using that assms by (auto simp: list_all_iff to_numeric_cell_def)
  then have "\<not> list_ex (\<lambda>c. to_numeric_cell parse c = PInf \<or> to_numeric_cell parse c = NInf) cs"
    using assms by (auto simp: list_ex_iff list_all_iff)
  then show ?thesis unfolding ensure_binary_eq using bin by simp
qed

lemma encode_fun_clean:
  assumes "clean_col n cs"
  shows "encode_fun parse n cs = Inr cs"
proof -
  consider (bin) "n \<in> set binary_cols"
    | (gen) "n \<notin> set binary_cols" "n = ''GenHlth''"
    | (edu) "n \<notin> set binary_cols" "n = ''Education''"
    | (age) "n \<notin> set binary_cols" "n = ''Age''"
    | (inc) "n \<notin> set binary_cols" "n = ''Income''"
    | (days) "n \<notin> set binary_cols" "n = ''MentHlth'' \<or> n = ''PhysHlth''"
    | (other) "n \<notin> set binary_cols" "n \<noteq> ''GenHlth''" "n \<noteq> ''Education''" "n \<noteq> ''Age''"
        "n \<noteq> ''Income''" "n \<noteq> ''MentHlth''" "n \<noteq> ''PhysHlth''"
    by blast
  then show ?thesis
  proof cases
    case bin
    then have "list_all (\<lambda>c. c = Num 0 \<or> c = Num 1) cs" using assms by (simp add: clean_col_def)
    from ensure_binary_clean[OF this] bin show ?thesis by (simp add: encode_fun_def)
  next
    case gen
    then have "list_all (\<lambda>c. between 1 5 c \<and> integral c) cs" using assms by (simp add: clean_col_def)
    from pass_through_scale(1)[OF this] gen show ?thesis by (simp add: encode_fun_def)
  next
    case edu
    then have "list_all (\<lambda>c. between 1 6 c \<and> integral c) cs" using assms by (simp add: clean_col_def)
    from pass_through_scale(1)[OF this] edu show ?thesis by (simp add: encode_fun_def)
  next
    case age
    then have "list_all (\<lambda>c. between 1 13 c \<and> integral c) cs" using assms by (simp add: clean_col_def)
    from pass_through_scale(2)[OF this] age show ?thesis by (simp add: encode_fun_def)
  next
    case inc
    then have "list_all (\<lambda>c. between 1 8 c \<and> integral c) cs" using assms by (simp add: clean_col_def)
    from pass_through_scale(2)[OF this] inc show ?thesis by (simp add: encode_fun_def)
  next
    case days
    then have "list_all (\<lambda>c. between 0 30 c \<and> integral c) cs"
      using assms by (auto simp: clean_col_def)
    from clip_days_clean[OF this] days show ?thesis by (auto simp: encode_fun_def)
  next
    case other
    then show ?thesis by (simp add: encode_fun_def)
  qed
qed

lemma final_fill_clean: "clean_col n cs \<Longrightarrow> final_fill parse n cs = Inr cs"
  by (rule final_fill_numbers) (rule clean_col_numbers)

lemma clean_fixed_point:
  assumes "clean df"
  shows "preprocess_survey_data parse df = Inr out \<longleftrightarrow>
           cols_ok impute_fun (normalize_columns df) \<and> out = normalize_columns df"
proof -
  let ?d0 = "normalize_columns df"
  from assms have d: "distinct (columns ?d0)" and rect: "rectangular ?d0"
    and cl: "\<And>n cs. (n, cs) \<in> set ?d0 \<Longrightarrow> clean_col n cs"
    and dr: "distinct (rows ?d0)"
    by (auto simp: clean_def wf_table_def list_all_iff)
  have after: "deduped df = ?d0 \<and> cols_ok (encode_fun parse) (deduped df) \<and>
          encoded parse df = ?d0 \<and> cols_ok (final_fill parse) (encoded parse df) \<and>
          apply_cols (final_fill parse) (encoded parse df) = ?d0"
    if ok: "cols_ok impute_fun ?d0"
  proof -
    have "impute_fun n cs = Inr cs" if m: "(n, cs) \<in> set ?d0" for n cs
    proof -
      from ok m have "\<not> isl (impute_fun n cs)" by (auto simp: cols_ok_def list_all_iff)
      then obtain ys where ys: "impute_fun n cs = Inr ys" by (cases "impute_fun n cs") auto
      with impute_fun_clean(1)[OF cl[OF m] ys] show ?thesis by simp
    qed
    then have i: "imputed df = ?d0" unfolding imputed_def by (rule apply_cols_id(1))
    have dd: "deduped df = ?d0" unfolding deduped_def i by (rule drop_duplicates_id[OF rect dr])
    have e: "encode_fun parse n cs = Inr cs" if "(n, cs) \<in> set ?d0" for n cs
      using encode_fun_clean[OF cl[OF that]] .
    have f: "final_fill parse n cs = Inr cs" if "(n, cs) \<in> set ?d0" for n cs
      using final_fill_clean[OF cl[OF that]] .
    have en: "encoded parse df = ?d0" unfolding encoded_def dd using e by (rule apply_cols_id(1))
    show ?thesis
      unfolding en dd using apply_cols_id[of ?d0 "encode_fun parse", OF e]
        apply_cols_id[of ?d0 "final_fill parse", OF f] by simp
  qed
  show ?thesis unfolding preprocess_iff[OF d] using after by auto
qed

lemma clean_returns:
  assumes "clean df" "0 < nrows df"
  shows "cols_ok impute_fun (normalize_columns df)"
proof -
  let ?d0 = "normalize_columns df"
  from assms have rect: "rectangular ?d0"
    and cl: "\<And>n cs. (n, cs) \<in> set ?d0 \<Longrightarrow> clean_col n cs"
    by (auto simp: clean_def wf_table_def list_all_iff)
  have "impute_fun n cs = Inr cs" if m: "(n, cs) \<in> set ?d0" for n cs
  proof -
    have "length cs = nrows df" using rectangular_mem[OF rect m] by simp
    then have "cs \<noteq> []" using assms(2) by auto
    from impute_fun_clean(2)[OF cl[OF m] this] show ?thesis .
  qed
  then show ?thesis by (rule apply_cols_id(2))
qed

lemma clean_normalize: "clean df \<Longrightarrow> clean (normalize_columns df)"
  by (simp add: clean_def wf_table_def normalize_columns_idem)

section \<open>Tables without missing entries\<close>

lemma impute_fun_no_null:
  "\<not> list_ex isnull cs \<Longrightarrow> impute_fun n cs = Inr ys \<Longrightarrow> ys = cs"
  by (auto simp: impute_fun_def fill_median_def fill_mode_def ebind_Inr_iff fillna_id
      split: if_splits)

lemma imputed_no_missing:
  assumes d: "distinct (columns (normalize_columns df))"
    and p: "preprocess_survey_data parse df = Inr out"
    and nn: "list_all (\<lambda>(n, cs). \<not> list_ex isnull cs) df"
  shows "imputed df = normalize_columns df"
  unfolding imputed_def
proof (rule apply_cols_id(1))
  fix n cs assume m: "(n, cs) \<in> set (normalize_columns df)"
  from preprocess_iff[OF d] p have "cols_ok impute_fun (normalize_columns df)" by simp
  with m have "\<not> isl (impute_fun n cs)" by (auto simp: cols_ok_def list_all_iff)
  then obtain ys where ys: "impute_fun n cs = Inr ys" by (cases "impute_fun n cs") auto
  from m obtain n0 where "(n0, cs) \<in> set df" by (auto simp: normalize_columns_def)
  with nn have "\<not> list_ex isnull cs" by (auto simp: list_all_iff)
  from impute_fun_no_null[OF this ys] ys show "impute_fun n cs = Inr cs" by simp
qed

lemma appended_duplicates_whole:
  assumes w: "wf_table df"
    and p: "preprocess_survey_data parse df = Inr out"
    and nn: "list_all (\<lambda>(n, cs). \<not> list_ex isnull cs) df"
    and rows: "rows df = rs @ ds" and dist: "distinct rs" and dup: "set ds \<subseteq> set rs"
  shows "nrows out = nrows df - length ds"
proof -
  from w have d: "distinct (columns (normalize_columns df))" and r: "rectangular df"
    by (simp_all add: wf_table_def)
  have i: "imputed df = normalize_columns df" using imputed_no_missing[OF d p nn] .
  have "nrows out = nrows (drop_duplicates (normalize_columns df))"
    using preprocess_shape(1)[OF d p] by (simp add: deduped_def i)
  also have "\<dots> = nrows (normalize_columns df) - length ds"
    by (rule appended_duplicates(2)[of _ rs]) (use r rows dist dup in simp_all)
  finally show ?thesis by simp
qed

section \<open>Binning intervals\<close>

text \<open>
  Claim C7. A raw Age or Income falls into the bin whose left edge is at or below it and
  whose right edge is above it; the last bin has no right edge. Below the first edge
  there is no bin. On the whole function: Age 42 is binned to 5 and Age 81 to 13,
  Income 12000 to 2 and Income 80000 to 8.
\<close>

theorem binning_intervals:
  "cut_cell age_bins age_labels (Num x) =
     (if x < 18 then NaN else if x < 25 then Num 1 else if x < 30 then Num 2
      else if x < 35 then Num 3 else if x < 40 then Num 4 else if x < 45 then Num 5
      else if x < 50 then Num 6 else if x < 55 then Num 7 else if x < 60 then Num 8
      else if x < 65 then Num 9 else if x < 70 then Num 10 else if x < 75 then Num 11
      else if x < 80 then Num 12 else Num 13) \<and>
   cut_cell income_bins income_labels (Num y) =
     (if y < 0 then NaN else if y < 10000 then Num 1 else if y < 15000 then Num 2
      else if y < 20000 then Num 3 else if y < 25000 then Num 4 else if y < 35000 then Num 5
      else if y < 50000 then Num 6 else if y < 75000 then Num 7 else Num 8) \<and>
   preprocess_survey_data parse [(''Age'', [Num 42, Num 81])] = Inr [(''Age'', [Num 5, Num 13])] \<and>
   preprocess_survey_data parse [(''Income'', [Num 12000, Num 80000])]
     = Inr [(''Income'', [Num 2, Num 8])]"
proof -
  have a: "preprocess_survey_data parse [(''Age'', [Num 42, Num 81])]
             = Inr [(''Age'', [Num 5, Num 13])]"
    by code_simp
  have b: "preprocess_survey_data parse [(''Income'', [Num 12000, Num 80000])]
             = Inr [(''Income'', [Num 2, Num 8])]"
    by code_simp
  show ?thesis using a b age_cut income_cut by simp
qed

theorem binning_intervals_witness:
  "cut_cell age_bins age_labels (Num 42) = Num 5 \<and>
   cut_cell age_bins age_labels (Num 81) = Num 13 \<and>
   cut_cell income_bins income_labels (Num 12000) = Num 2 \<and>
   cut_cell income_bins income_labels (Num 80000) = Num 8 \<and>
   preprocess_survey_data parse_digits [(''Age'', [Num 42, Num 81])]
     = Inr [(''Age'', [Num 5, Num 13])]"
  using binning_intervals [of 42 12000 parse_digits] binning_intervals [of 81 80000 parse_digits]
  by simp

section \<open>The fill of a column that is all missing\<close>

text \<open>
  Claim C6. The fill of an Age column that is all missing after the numeric coercion is
  \<^verbatim>\<open>age_labels[len(age_labels)//2 - 1]\<close>, which is 6, not the middle label 7 of
  the 13 labels; for Income it is 4. The raw value 6 is below the first Age edge, so the
  binning leaves the whole column missing and the final check raises.
\<close>

theorem age_fallback_is_six:
  "fallback_label age_labels = Num 6 \<and>
   fallback_label income_labels = Num 4 \<and>
   fill_before_cut age_labels (to_numeric_coerce parse_digits [Str ''abc'', NaN])
     = Inr [Num 6, Num 6] \<and>
   preprocess_survey_data parse_digits [(''Age'', [Str ''abc''])] = Inl KeyError"
  by code_simp

section \<open>Missing entries in the output\<close>

text \<open>
  Claim C2. A BMI column that is all missing comes out all missing: its median is NaN, in
  the first pass and in the final check.
\<close>

theorem all_missing_bmi_stays_missing:
  "preprocess_survey_data parse_digits [(''BMI'', [NaN, NaN]), (''HighBP'', [Num 1, Num 0])]
     = Inr [(''BMI'', [NaN, NaN]), (''HighBP'', [Num 1, Num 0])]"
  by code_simp

section \<open>Label remap\<close>




section \<open>All-or-nothing binning\<close>



section \<open>Binary closure\<close>

text \<open>
  Claim C4, as amended. Whenever the function returns, every value of a binary column is
  0 or 1. The value is computed from the cell the first two steps left there: the cell is
  coerced to a number, a failed coercion gives 0, the number is truncated to an int64,
  and 1 comes out exactly when the number is at least 1 and below \<open>2 ^ 63\<close>;
  negatives, zero, the positive numbers below 1 and the numbers from \<open>2 ^ 63\<close> on
  give 0. No cell of the column coerces to an infinity (the cast raises on it).
\<close>

theorem binary_closure:
  assumes "wf_table df"
    and "preprocess_survey_data parse df = Inr out"
    and "col \<in> set binary_cols"
  shows "list_all (\<lambda>c. c = Num 0 \<or> c = Num 1) (get_col out col) \<and>
         (\<exists>mid. handle_missing_values (normalize_columns df) = Inr mid \<and>
                get_col out col =
                  map (\<lambda>c. case to_numeric_cell parse c of
                             Num x \<Rightarrow> if 1 \<le> x \<and> x < 2 ^ 63 then Num 1 else Num 0
                           | _ \<Rightarrow> Num 0)
                    (get_col (drop_duplicates mid) col) \<and>
                list_all (\<lambda>c. to_numeric_cell parse c \<noteq> PInf \<and> to_numeric_cell parse c \<noteq> NInf)
                  (get_col (drop_duplicates mid) col))"
proof -
  have d: "distinct (columns (normalize_columns df))" using assms(1) by (simp add: wf_table_def)
  note bc = binary_column[OF d assms(2,3)]
  have bv: "binary_value parse =
      (\<lambda>c. case to_numeric_cell parse c of
              Num x \<Rightarrow> if 1 \<le> x \<and> x < 2 ^ 63 then Num 1 else Num 0
            | _ \<Rightarrow> Num 0)"
    by (rule ext) (simp add: binary_value_def)
  have c: "get_col out col = map (binary_value parse) (get_col (drop_duplicates (imputed df)) col)"
    using bc by (simp add: deduped_def)
  have 1: "list_all (\<lambda>c. c = Num 0 \<or> c = Num 1) (get_col out col)"
    unfolding c list_all_iff using binary_value_cases[of parse] by auto
  have 2: "handle_missing_values (normalize_columns df) = Inr (imputed df)"
    using preprocess_mid[OF d assms(2)] .
  have 3: "get_col out col =
      map (\<lambda>c. case to_numeric_cell parse c of
                  Num x \<Rightarrow> if 1 \<le> x \<and> x < 2 ^ 63 then Num 1 else Num 0
                | _ \<Rightarrow> Num 0)
        (get_col (drop_duplicates (imputed df)) col)"
    using c unfolding bv .
  have 4: "list_all (\<lambda>c. to_numeric_cell parse c \<noteq> PInf \<and> to_numeric_cell parse c \<noteq> NInf)
             (get_col (drop_duplicates (imputed df)) col)"
    using bc by (auto simp: deduped_def list_all_iff list_ex_iff)
  show ?thesis using 1 2 3 4 by blast
qed

theorem binary_closure_witness:
  "wf_table [(''HighBP'', [Num (1/2), Str ''yes'', Num 3, Num (-2), Num (10 ^ 19), Str ''7''])] \<and>
   preprocess_survey_data parse_digits
     [(''HighBP'', [Num (1/2), Str ''yes'', Num 3, Num (-2), Num (10 ^ 19), Str ''7''])]
     = Inr [(''HighBP'', [Num 0, Num 0, Num 1, Num 0, Num 0, Num 1])] \<and>
   ''HighBP'' \<in> set binary_cols \<and>
   list_all (\<lambda>c. c = Num 0 \<or> c = Num 1)
     (get_col [(''HighBP'', [Num 0, Num 0, Num 1, Num 0, Num 0, Num 1])] ''HighBP'')"
proof -
  let ?df = "[(''HighBP'', [Num (1/2), Str ''yes'', Num 3, Num (-2), Num (10 ^ 19), Str ''7''])]"
  let ?out = "[(''HighBP'', [Num 0, Num 0, Num 1, Num 0, Num 0, Num 1])]"
  have w: "wf_table ?df" by code_simp
  have p: "preprocess_survey_data parse_digits ?df = Inr ?out" by code_simp
  have b: "''HighBP'' \<in> set binary_cols" by (simp add: binary_cols_def)
  from binary_closure [OF w p b] w p b show ?thesis by blast
qed

theorem binary_fraction_counterexample:
  "(0::rat) < 1/2 \<and>
   preprocess_survey_data parse_digits [(''HighBP'', [Num (1/2)])] = Inr [(''HighBP'', [Num 0])]"
  by code_simp

section \<open>Range closure\<close>

text \<open>
  Claim C3, as amended. Whenever the function returns, every output value is in its
  range: GenHlth in [1,5], Education in [1,6], Age in [1,13], Income in [1,8], MentHlth
  and PhysHlth in [0,30]. MentHlth and PhysHlth are integers. Each of the four ordinal
  columns comes out in one of two ways, decided by the column as the first two steps
  (imputation, deduplication) left it: when that column is numeric with all its values
  in range, it is the output column, unchanged, so that a non-integer in range (GenHlth
  2.5, Age 3.7) stays; otherwise the column is remapped or binned and all its output
  values are integers.
\<close>

theorem range_closure:
  assumes "wf_table df"
    and "preprocess_survey_data parse df = Inr out"
  shows
   "\<exists>mid. handle_missing_values (normalize_columns df) = Inr mid \<and>
      (list_all (between 1 5) (get_col out ''GenHlth'') \<and>
       (if numeric_dtype (get_col (drop_duplicates mid) ''GenHlth'') \<and>
           list_all (between 1 5) (get_col (drop_duplicates mid) ''GenHlth'')
        then get_col out ''GenHlth'' = get_col (drop_duplicates mid) ''GenHlth''
        else list_all integral (get_col out ''GenHlth''))) \<and>
      (list_all (between 1 6) (get_col out ''Education'') \<and>
       (if numeric_dtype (get_col (drop_duplicates mid) ''Education'') \<and>
           list_all (between 1 6) (get_col (drop_duplicates mid) ''Education'')
        then get_col out ''Education'' = get_col (drop_duplicates mid) ''Education''
        else list_all integral (get_col out ''Education''))) \<and>
      (list_all (between 1 13) (get_col out ''Age'') \<and>
       (if numeric_dtype (get_col (drop_duplicates mid) ''Age'') \<and>
           list_all (between 1 13) (get_col (drop_duplicates mid) ''Age'')
        then get_col out ''Age'' = get_col (drop_duplicates mid) ''Age''
        else list_all integral (get_col out ''Age''))) \<and>
      (list_all (between 1 8) (get_col out ''Income'') \<and>
       (if numeric_dtype (get_col (drop_duplicates mid) ''Income'') \<and>
           list_all (between 1 8) (get_col (drop_duplicates mid) ''Income'')
        then get_col out ''Income'' = get_col (drop_duplicates mid) ''Income''
        else list_all integral (get_col out ''Income''))) \<and>
      list_all (\<lambda>c. between 0 30 c \<and> integral c) (get_col out ''MentHlth'') \<and>
      list_all (\<lambda>c. between 0 30 c \<and> integral c) (get_col out ''PhysHlth'')"
proof -
  have d: "distinct (columns (normalize_columns df))" using assms(1) by (simp add: wf_table_def)
  note col = preprocess_column[OF d assms(2)]
  note absent = preprocess_absent[OF d assms(2)]
  let ?mid = "imputed df"
  have mid: "handle_missing_values (normalize_columns df) = Inr ?mid"
    using preprocess_mid[OF d assms(2)] .
  have none: "get_col (drop_duplicates ?mid) n = []" "get_col out n = []"
    if "n \<notin> set (columns (normalize_columns df))" for n
    using that absent[OF that] by (simp_all add: get_col_absent imputed_def)
  have empty: "numeric_dtype []" by (simp add: numeric_dtype_def)
  have g: "list_all (between 1 5) (get_col out ''GenHlth'') \<and>
       (if numeric_dtype (get_col (drop_duplicates ?mid) ''GenHlth'') \<and>
           list_all (between 1 5) (get_col (drop_duplicates ?mid) ''GenHlth'')
        then get_col out ''GenHlth'' = get_col (drop_duplicates ?mid) ''GenHlth''
        else list_all integral (get_col out ''GenHlth''))"
  proof (cases "''GenHlth'' \<in> set (columns (normalize_columns df))")
    case True
    from col[OF True] obtain ys where
      "encode_scale parse genhlth_mapping 1 5 (get_col (drop_duplicates ?mid) ''GenHlth'') = Inr ys"
      "final_fill parse ''GenHlth'' ys = Inr (get_col out ''GenHlth'')"
      by (auto simp: encode_fun_def binary_cols_def deduped_def)
    from scale_out[OF genhlth_codes this] show ?thesis .
  next
    case False
    then show ?thesis using none[OF False] empty by simp
  qed
  have e: "list_all (between 1 6) (get_col out ''Education'') \<and>
       (if numeric_dtype (get_col (drop_duplicates ?mid) ''Education'') \<and>
           list_all (between 1 6) (get_col (drop_duplicates ?mid) ''Education'')
        then get_col out ''Education'' = get_col (drop_duplicates ?mid) ''Education''
        else list_all integral (get_col out ''Education''))"
  proof (cases "''Education'' \<in> set (columns (normalize_columns df))")
    case True
    from col[OF True] obtain ys where
      "encode_scale parse education_mapping 1 6 (get_col (drop_duplicates ?mid) ''Education'') = Inr ys"
      "final_fill parse ''Education'' ys = Inr (get_col out ''Education'')"
      by (auto simp: encode_fun_def binary_cols_def deduped_def)
    from scale_out[OF education_codes this] show ?thesis .
  next
    case False
    then show ?thesis using none[OF False] empty by simp
  qed
  have a: "list_all (between 1 13) (get_col out ''Age'') \<and>
       (if numeric_dtype (get_col (drop_duplicates ?mid) ''Age'') \<and>
           list_all (between 1 13) (get_col (drop_duplicates ?mid) ''Age'')
        then get_col out ''Age'' = get_col (drop_duplicates ?mid) ''Age''
        else list_all integral (get_col out ''Age''))"
  proof (cases "''Age'' \<in> set (columns (normalize_columns df))")
    case True
    from col[OF True] obtain ys where
      "bin_feature parse age_bins age_labels 1 13 (get_col (drop_duplicates ?mid) ''Age'') = Inr ys"
      "final_fill parse ''Age'' ys = Inr (get_col out ''Age'')"
      by (auto simp: encode_fun_def binary_cols_def deduped_def)
    from binned_out[OF age_cut_cell _ this] show ?thesis by simp
  next
    case False
    then show ?thesis using none[OF False] empty by simp
  qed
  have i: "list_all (between 1 8) (get_col out ''Income'') \<and>
       (if numeric_dtype (get_col (drop_duplicates ?mid) ''Income'') \<and>
           list_all (between 1 8) (get_col (drop_duplicates ?mid) ''Income'')
        then get_col out ''Income'' = get_col (drop_duplicates ?mid) ''Income''
        else list_all integral (get_col out ''Income''))"
  proof (cases "''Income'' \<in> set (columns (normalize_columns df))")
    case True
    from col[OF True] obtain ys where
      "bin_feature parse income_bins income_labels 1 8 (get_col (drop_duplicates ?mid) ''Income'') = Inr ys"
      "final_fill parse ''Income'' ys = Inr (get_col out ''Income'')"
      by (auto simp: encode_fun_def binary_cols_def deduped_def)
    from binned_out[OF income_cut_cell _ this] show ?thesis by simp
  next
    case False
    then show ?thesis using none[OF False] empty by simp
  qed
  have m: "list_all (\<lambda>c. between 0 30 c \<and> integral c) (get_col out ''MentHlth'')"
  proof (cases "''MentHlth'' \<in> set (columns (normalize_columns df))")
    case True
    from col[OF True] obtain ys where
      "clip_days parse (get_col (deduped df) ''MentHlth'') = Inr ys"
      "final_fill parse ''MentHlth'' ys = Inr (get_col out ''MentHlth'')"
      by (auto simp: encode_fun_def binary_cols_def)
    from days_out[OF this] show ?thesis .
  next
    case False
    then show ?thesis using absent by simp
  qed
  have p: "list_all (\<lambda>c. between 0 30 c \<and> integral c) (get_col out ''PhysHlth'')"
  proof (cases "''PhysHlth'' \<in> set (columns (normalize_columns df))")
    case True
    from col[OF True] obtain ys where
      "clip_days parse (get_col (deduped df) ''PhysHlth'') = Inr ys"
      "final_fill parse ''PhysHlth'' ys = Inr (get_col out ''PhysHlth'')"
      by (auto simp: encode_fun_def binary_cols_def)
    from days_out[OF this] show ?thesis .
  next
    case False
    then show ?thesis using absent by simp
  qed
  from mid g e a i m p show ?thesis by blast
qed

theorem range_closure_witness:
  "wf_table
     [(''GenHlth'', [Str ''poor'', Num 7, Num 2]),
      (''Education'', [Num 9, Str ''elementary'', NaN]),
      (''Age'', [Num 42, Num 17, Num 81]),
      (''Income'', [Num 12000, Num (-5), Num 80000]),
      (''MentHlth'', [Num 45, Num (7/2), Num (-1)]),
      (''PhysHlth'', [Num 0, NaN, Num 31])] \<and>
   preprocess_survey_data parse_digits
     [(''GenHlth'', [Str ''poor'', Num 7, Num 2]),
      (''Education'', [Num 9, Str ''elementary'', NaN]),
      (''Age'', [Num 42, Num 17, Num 81]),
      (''Income'', [Num 12000, Num (-5), Num 80000]),
      (''MentHlth'', [Num 45, Num (7/2), Num (-1)]),
      (''PhysHlth'', [Num 0, NaN, Num 31])]
     = Inr [(''GenHlth'', [Num 5, Num 2, Num 2]),
            (''Education'', [Num 2, Num 2, Num 2]),
            (''Age'', [Num 5, Num 5, Num 13]),
            (''Income'', [Num 2, Num 2, Num 8]),
            (''MentHlth'', [Num 30, Num 3, Num 0]),
            (''PhysHlth'', [Num 0, Num 15, Num 30])] \<and>
   list_all (\<lambda>c. between 0 30 c \<and> integral c) [Num 30, Num 3, Num 0] \<and>
   list_all (between 1 5) [Num 5, Num 2, Num 2] \<and>
   list_all integral [Num 5, Num 2, Num 2]"
proof -
  let ?df = "[(''GenHlth'', [Str ''poor'', Num 7, Num 2]),
      (''Education'', [Num 9, Str ''elementary'', NaN]),
      (''Age'', [Num 42, Num 17, Num 81]),
      (''Income'', [Num 12000, Num (-5), Num 80000]),
      (''MentHlth'', [Num 45, Num (7/2), Num (-1)]),
      (''PhysHlth'', [Num 0, NaN, Num 31])]"
  let ?mid = "[(''GenHlth'', [Str ''poor'', Num 7, Num 2]),
      (''Education'', [Num 9, Str ''elementary'', Num 9]),
      (''Age'', [Num 42, Num 17, Num 81]),
      (''Income'', [Num 12000, Num (-5), Num 80000]),
      (''MentHlth'', [Num 45, Num (7/2), Num (-1)]),
      (''PhysHlth'', [Num 0, Num (31/2), Num 31])]"
  let ?out = "[(''GenHlth'', [Num 5, Num 2, Num 2]),
            (''Education'', [Num 2, Num 2, Num 2]),
            (''Age'', [Num 5, Num 5, Num 13]),
            (''Income'', [Num 2, Num 2, Num 8]),
            (''MentHlth'', [Num 30, Num 3, Num 0]),
            (''PhysHlth'', [Num 0, Num 15, Num 30])]"
  have w: "wf_table ?df" by code_simp
  have p: "preprocess_survey_data parse_digits ?df = Inr ?out" by code_simp
  have h: "handle_missing_values (normalize_columns ?df) = Inr ?mid" by code_simp
  have gate: "\<not> numeric_dtype (get_col (drop_duplicates ?mid) ''GenHlth'')" by code_simp
  have gm: "get_col ?out ''MentHlth'' = [Num 30, Num 3, Num 0]" by (simp add: get_col_def)
  have gg: "get_col ?out ''GenHlth'' = [Num 5, Num 2, Num 2]" by (simp add: get_col_def)
  from range_closure [OF w p] obtain mid where
    m: "handle_missing_values (normalize_columns ?df) = Inr mid"
    and r: "list_all (between 1 5) (get_col ?out ''GenHlth'')"
    and i: "if numeric_dtype (get_col (drop_duplicates mid) ''GenHlth'') \<and>
               list_all (between 1 5) (get_col (drop_duplicates mid) ''GenHlth'')
            then get_col ?out ''GenHlth'' = get_col (drop_duplicates mid) ''GenHlth''
            else list_all integral (get_col ?out ''GenHlth'')"
    and d: "list_all (\<lambda>c. between 0 30 c \<and> integral c) (get_col ?out ''MentHlth'')"
    by blast
  have "mid = ?mid" using m h by simp
  then have "list_all integral (get_col ?out ''GenHlth'')"
    using i gate by (simp only: simp_thms if_False)
  then show ?thesis using w p r d unfolding gm gg by blast
qed

theorem range_integrality_counterexample:
  "preprocess_survey_data parse_digits [(''GenHlth'', [Num (5/2)])]
     = Inr [(''GenHlth'', [Num (5/2)])] \<and>
   \<not> integral (Num (5/2)) \<and>
   preprocess_survey_data parse_digits [(''Age'', [Num (37/10)])]
     = Inr [(''Age'', [Num (37/10)])] \<and>
   \<not> integral (Num (37/10))"
  by code_simp

section \<open>Deduplication\<close>

text \<open>
  Claim C8, as amended. The deduplication runs on the table \<open>t\<close> that the first
  imputation pass returns. It keeps exactly the rows of \<open>t\<close> that equal no earlier
  row, in their order: each row of \<open>t\<close> is kept once, at its first occurrence. The
  kept rows carry their labels, and the index is then reset to 0, 1, 2, ... When
  \<open>t\<close> is a list of distinct rows followed by duplicates of them, the duplicates
  are all removed and the row count drops by their number. No other step of the function
  changes the number of rows: the output has as many rows as the deduplicated table, at
  most as many as the input, and exactly the appended duplicates fewer when the input
  has no missing entry (the first pass then changes nothing).
\<close>

theorem drop_duplicates_keeps_first:
  "(rectangular t \<longrightarrow>
      rows (drop_duplicates t) = map (row t) (survivors t) \<and>
      distinct (rows (drop_duplicates t)) \<and>
      set (rows (drop_duplicates t)) = set (rows t) \<and>
      (length index = nrows t \<longrightarrow>
         drop_duplicates_indexed (index, t) = (map (nth index) (survivors t), drop_duplicates t) \<and>
         handle_duplicates (index, t) = ([0..<nrows (drop_duplicates t)], drop_duplicates t)) \<and>
      (\<forall>rs ds. rows t = rs @ ds \<and> distinct rs \<and> set ds \<subseteq> set rs \<longrightarrow>
         rows (drop_duplicates t) = rs \<and> nrows (drop_duplicates t) = nrows t - length ds)) \<and>
   (wf_table df \<and> preprocess_survey_data parse df = Inr out \<longrightarrow>
      (\<exists>mid. handle_missing_values (normalize_columns df) = Inr mid \<and> rectangular mid \<and>
             nrows mid = nrows df \<and> nrows out = nrows (drop_duplicates mid)) \<and>
      nrows out \<le> nrows df \<and>
      (\<forall>rs ds. list_all (\<lambda>(n, cs). \<not> list_ex isnull cs) df \<and>
         rows df = rs @ ds \<and> distinct rs \<and> set ds \<subseteq> set rs \<longrightarrow>
         nrows out = nrows df - length ds))"
proof -
  have 1: "rows (drop_duplicates t) = map (row t) (survivors t)"
    and 2: "distinct (rows (drop_duplicates t))"
    and 3: "set (rows (drop_duplicates t)) = set (rows t)" if r: "rectangular t"
    using rows_drop_duplicates[OF r] distinct_rows_drop_duplicates[OF r]
      set_rows_drop_duplicates[OF r] by simp_all
  have 4: "drop_duplicates_indexed (index, t) = (map (nth index) (survivors t), drop_duplicates t)"
    and 5: "handle_duplicates (index, t) = ([0..<nrows (drop_duplicates t)], drop_duplicates t)"
    if r: "rectangular t" and l: "length index = nrows t"
  proof -
    show a: "drop_duplicates_indexed (index, t) = (map (nth index) (survivors t), drop_duplicates t)"
      by (simp add: drop_duplicates_indexed_def select_survivors[OF l])
    show "handle_duplicates (index, t) = ([0..<nrows (drop_duplicates t)], drop_duplicates t)"
      by (simp add: handle_duplicates_def a reset_index_def nrows_drop_duplicates[OF r])
  qed
  have 6: "rows (drop_duplicates t) = rs \<and> nrows (drop_duplicates t) = nrows t - length ds"
    if r: "rectangular t" and a: "rows t = rs @ ds \<and> distinct rs \<and> set ds \<subseteq> set rs" for rs ds
    using appended_duplicates[OF r, of rs ds] a by simp
  have 7: "\<exists>mid. handle_missing_values (normalize_columns df) = Inr mid \<and> rectangular mid \<and>
             nrows mid = nrows df \<and> nrows out = nrows (drop_duplicates mid)"
    and 8: "nrows out \<le> nrows df"
    if a: "wf_table df \<and> preprocess_survey_data parse df = Inr out"
  proof -
    from a have d: "distinct (columns (normalize_columns df))" and r: "rectangular df"
      and p: "preprocess_survey_data parse df = Inr out" by (simp_all add: wf_table_def)
    note sh = preprocess_shape[OF d p]
    show "\<exists>mid. handle_missing_values (normalize_columns df) = Inr mid \<and> rectangular mid \<and>
             nrows mid = nrows df \<and> nrows out = nrows (drop_duplicates mid)"
      using preprocess_mid[OF d p] sh r by (auto simp: deduped_def)
    show "nrows out \<le> nrows df"
      using sh(1,2) nrows_drop_duplicates_le[of "imputed df"] by (simp add: deduped_def)
  qed
  have 9: "nrows out = nrows df - length ds"
    if a: "wf_table df \<and> preprocess_survey_data parse df = Inr out"
      and b: "list_all (\<lambda>(n, cs). \<not> list_ex isnull cs) df \<and>
         rows df = rs @ ds \<and> distinct rs \<and> set ds \<subseteq> set rs" for rs ds
    using appended_duplicates_whole[of df parse out rs ds] a b by simp
  show ?thesis using 1 2 3 4 5 6 7 8 9 by blast
qed

theorem drop_duplicates_keeps_first_witness:
  "rectangular [(''A'', [Num 1, Num 2, Num 1]), (''B'', [Num 5, Num 6, Num 5])] \<and>
   rows (drop_duplicates [(''A'', [Num 1, Num 2, Num 1]), (''B'', [Num 5, Num 6, Num 5])])
     = [[Num 1, Num 5], [Num 2, Num 6]] \<and>
   length [7, 8, 9 :: nat] = nrows [(''A'', [Num 1, Num 2, Num 1]), (''B'', [Num 5, Num 6, Num 5])] \<and>
   drop_duplicates_indexed
       ([7, 8, 9 :: nat], [(''A'', [Num 1, Num 2, Num 1]), (''B'', [Num 5, Num 6, Num 5])])
     = ([7, 8], [(''A'', [Num 1, Num 2]), (''B'', [Num 5, Num 6])]) \<and>
   handle_duplicates
       ([7, 8, 9 :: nat], [(''A'', [Num 1, Num 2, Num 1]), (''B'', [Num 5, Num 6, Num 5])])
     = ([0, 1], [(''A'', [Num 1, Num 2]), (''B'', [Num 5, Num 6])]) \<and>
   wf_table [(''BMI'', [Num 20, Num 21, Num 20])] \<and>
   preprocess_survey_data parse_digits [(''BMI'', [Num 20, Num 21, Num 20])]
     = Inr [(''BMI'', [Num 20, Num 21])] \<and>
   nrows [(''BMI'', [Num 20, Num 21])] \<le> nrows [(''BMI'', [Num 20, Num 21, Num 20])]"
proof -
  let ?t = "[(''A'', [Num 1, Num 2, Num 1]), (''B'', [Num 5, Num 6, Num 5])]"
  let ?i = "[7, 8, 9 :: nat]"
  let ?df = "[(''BMI'', [Num 20, Num 21, Num 20])]"
  let ?out = "[(''BMI'', [Num 20, Num 21])]"
  have r: "rectangular ?t" by code_simp
  have l: "length ?i = nrows ?t" by code_simp
  have s: "map (row ?t) (survivors ?t) = [[Num 1, Num 5], [Num 2, Num 6]]" by code_simp
  have i: "map (nth ?i) (survivors ?t) = [7, 8]" by code_simp
  have dd: "drop_duplicates ?t = [(''A'', [Num 1, Num 2]), (''B'', [Num 5, Num 6])]" by code_simp
  have n: "[0..<nrows [(''A'', [Num 1, Num 2]), (''B'', [Num 5, Num 6])]] = [0, 1]" by code_simp
  have w: "wf_table ?df" by code_simp
  have p: "preprocess_survey_data parse_digits ?df = Inr ?out" by code_simp
  note d = drop_duplicates_keeps_first [of ?t ?i ?df parse_digits ?out]
  from d r have "rows (drop_duplicates ?t) = map (row ?t) (survivors ?t)" by blast
  then have a: "rows (drop_duplicates ?t) = [[Num 1, Num 5], [Num 2, Num 6]]"
    by (simp only: s)
  from d r l have "drop_duplicates_indexed (?i, ?t) = (map (nth ?i) (survivors ?t), drop_duplicates ?t)"
    by blast
  then have x: "drop_duplicates_indexed (?i, ?t)
      = ([7, 8], [(''A'', [Num 1, Num 2]), (''B'', [Num 5, Num 6])])"
    by (simp only: i dd)
  from d r l have "handle_duplicates (?i, ?t) = ([0..<nrows (drop_duplicates ?t)], drop_duplicates ?t)"
    by blast
  then have h: "handle_duplicates (?i, ?t)
      = ([0, 1], [(''A'', [Num 1, Num 2]), (''B'', [Num 5, Num 6])])"
    by (simp only: dd n)
  from d w p have b: "nrows ?out \<le> nrows ?df" by blast
  from r a l x h w p b show ?thesis by blast
qed

theorem appended_duplicate_counterexample:
  "rows [(''BMI'', [Num 20, NaN, Num 21, Num 20]), (''HighBP'', [Num 1, Num 1, Num 0, Num 1])]
     = [[Num 20, Num 1], [NaN, Num 1], [Num 21, Num 0]] @ [[Num 20, Num 1]] \<and>
   distinct [[Num 20, Num 1], [NaN, Num 1], [Num 21, Num 0]] \<and>
   preprocess_survey_data parse_digits
     [(''BMI'', [Num 20, NaN, Num 21, Num 20]), (''HighBP'', [Num 1, Num 1, Num 0, Num 1])]
     = Inr [(''BMI'', [Num 20, Num 21]), (''HighBP'', [Num 1, Num 0])] \<and>
   nrows [(''BMI'', [Num 20, Num 21]), (''HighBP'', [Num 1, Num 0])] \<noteq>
     nrows [(''BMI'', [Num 20, NaN, Num 21, Num 20]), (''HighBP'', [Num 1, Num 1, Num 0, Num 1])]
       - length [[Num 20, Num (1::rat)]] \<and>
   preprocess_survey_data parse_digits [(''HighBP'', [Num 1, Num 2, Num 0, Num 1])]
     = Inr [(''HighBP'', [Num 1, Num 1, Num 0])] \<and>
   \<not> distinct (rows [(''HighBP'', [Num 1, Num 1, Num 0])])"
  by code_simp

section \<open>Idempotence\<close>

text \<open>
  Claim C9. On a clean table, running the function on its own result gives that result
  again. The result is the table itself, under the normalised column names, and the
  function does return it whenever the table has a row. (A clean table with no row and a
  binary or ordinal column raises at \<^verbatim>\<open>mode()[0]\<close>, in the first run as in any other.)
\<close>

theorem idempotent_on_clean:
  assumes "clean df"
  shows "ebind (preprocess_survey_data parse df) (preprocess_survey_data parse)
           = preprocess_survey_data parse df \<and>
         (\<forall>out. preprocess_survey_data parse df = Inr out \<longrightarrow> out = normalize_columns df) \<and>
         (0 < nrows df \<longrightarrow> preprocess_survey_data parse df = Inr (normalize_columns df))"
proof (intro conjI allI impI)
  show "ebind (preprocess_survey_data parse df) (preprocess_survey_data parse)
           = preprocess_survey_data parse df"
  proof (cases "preprocess_survey_data parse df")
    case (Inl e)
    then show ?thesis by simp
  next
    case (Inr out)
    then have "out = normalize_columns df" using clean_fixed_point[OF assms] by simp
    then have "preprocess_survey_data parse out = Inr out"
      using Inr preprocess_normalized[of parse df] by simp
    then show ?thesis using Inr by simp
  qed
next
  fix out assume "preprocess_survey_data parse df = Inr out"
  then show "out = normalize_columns df" using clean_fixed_point[OF assms] by simp
next
  assume "0 < nrows df"
  from clean_returns[OF assms this]
  show "preprocess_survey_data parse df = Inr (normalize_columns df)"
    using clean_fixed_point[OF assms] by simp
qed

theorem idempotent_on_clean_witness:
  "clean [(''HighBP'', [Num 1, Num 0]), (''GenHlth'', [Num 3, Num 5]), (''Age'', [Num 9, Num 13]),
          (''BMI'', [Num 27, Num (61/2)]), (''MentHlth'', [Num 0, Num 30])] \<and>
   preprocess_survey_data parse_digits
     [(''HighBP'', [Num 1, Num 0]), (''GenHlth'', [Num 3, Num 5]), (''Age'', [Num 9, Num 13]),
      (''BMI'', [Num 27, Num (61/2)]), (''MentHlth'', [Num 0, Num 30])]
   = Inr [(''HighBP'', [Num 1, Num 0]), (''GenHlth'', [Num 3, Num 5]), (''Age'', [Num 9, Num 13]),
          (''BMI'', [Num 27, Num (61/2)]), (''MentHlth'', [Num 0, Num 30])]"
proof -
  let ?df = "[(''HighBP'', [Num 1, Num 0]), (''GenHlth'', [Num 3, Num 5]), (''Age'', [Num 9, Num 13]),
          (''BMI'', [Num 27, Num (61/2)]), (''MentHlth'', [Num 0, Num 30])]"
  have c: "clean ?df" by code_simp
  have n: "0 < nrows ?df" by code_simp
  have h: "normalize_columns ?df = ?df" by code_simp
  from idempotent_on_clean [OF c, of parse_digits] n
  have "preprocess_survey_data parse_digits ?df = Inr (normalize_columns ?df)" by blast
  then have "preprocess_survey_data parse_digits ?df = Inr ?df" by (simp only: h)
  with c show ?thesis by blast
qed

section \<open>Totality\<close>

text \<open>
  Claim C1 says that the function returns a table on every input and never raises. It
  raises on a table in which a binary column is entirely missing: the mode of the column
  is empty, and \<^verbatim>\<open>mode()[0]\<close> in the first pass is a KeyError. It raises as well on a BMI column that is entirely text (the median of an object column,
  TypeError), on a MentHlth column that is entirely missing (its median is NaN, nothing
  is filled, and \<^verbatim>\<open>astype(int)\<close> is a ValueError), and on an infinity in a
  binary column (\<^verbatim>\<open>astype(int)\<close> again).
\<close>

theorem all_missing_column_raises:
  "preprocess_survey_data parse_digits
     [(''HighBP'', [NaN, NaN]), (''BMI'', [Num 20, Num 25])] = Inl KeyError \<and>
   preprocess_survey_data parse_digits
     [(''BMI'', [Str ''abc'', Str ''def'']), (''HighBP'', [Num 1, Num 0])] = Inl TypeError \<and>
   preprocess_survey_data parse_digits
     [(''MentHlth'', [NaN, NaN]), (''HighBP'', [Num 1, Num 0])] = Inl ValueError \<and>
   preprocess_survey_data parse_digits
     [(''HighBP'', [PInf, Num 1]), (''BMI'', [Num 20, Num 25])] = Inl ValueError"
  by code_simp

end
